theory Spec2Isabelle
  imports Complex_Main "HOL-Library.Product_Lexorder" "HOL-Library.Stream"
begin

section \<open>The fire model of \<^verbatim>\<open>Antigravity/fire_model.py\<close>\<close>

text \<open>
  The embedding follows \<^verbatim>\<open>class FireModel\<close> line by line. Conventions:
  \<^item> a numpy raster is its shape \<open>(rows, cols)\<close> and a function from cells to values;
    every read the source guards by a bounds test is guarded the same way here;
  \<^item> \<^verbatim>\<open>np.float64\<close> values are idealised as real numbers (no rounding, no NaN);
    \<^verbatim>\<open>np.inf\<close> in the ignition time array is \<open>None\<close>, a finite time \<open>t\<close> is \<open>Some t\<close>;
  \<^item> the module-level generator \<^verbatim>\<open>np.random\<close> is a state that the run reads and
    advances; it is no attribute of the object and no argument of \<^verbatim>\<open>__init__\<close>;
  \<^item> an exception is a value: the error together with the state the raise leaves behind.
\<close>

type_synonym cell = "int \<times> int"

type_synonym event = "real \<times> int \<times> int"

datatype error = ValueError | IndexError

subsection \<open>The global generator \<^verbatim>\<open>np.random\<close>\<close>

text \<open>
  The generator is modelled by what it will hand out: the uniform variates of \<open>[0, 1)\<close>
  that \<^verbatim>\<open>random()\<close> and \<^verbatim>\<open>randint\<close> consume, and the standard normal variates that
  \<^verbatim>\<open>normal\<close> consumes. \<^verbatim>\<open>randint(low, high)\<close> draws from \<open>low, ..., high - 1\<close> and raises
  \<^verbatim>\<open>ValueError\<close> when \<open>low >= high\<close>, before it consumes anything.
\<close>

record np_random =
  uniforms :: "real stream"
  normals :: "real stream"

definition np_random_random :: "np_random \<Rightarrow> real \<times> np_random" where
  "np_random_random g = (shd (uniforms g), g\<lparr>uniforms := stl (uniforms g)\<rparr>)"

definition np_random_randint :: "int \<Rightarrow> int \<Rightarrow> np_random \<Rightarrow> error + (int \<times> np_random)" where
  "np_random_randint low high g =
     (if low \<ge> high then Inl ValueError
      else Inr (low + \<lfloor>shd (uniforms g) * real_of_int (high - low)\<rfloor>,
                g\<lparr>uniforms := stl (uniforms g)\<rparr>))"

definition np_random_normal :: "real \<Rightarrow> real \<Rightarrow> np_random \<Rightarrow> real \<times> np_random" where
  "np_random_normal loc scale g =
     (loc + scale * shd (normals g), g\<lparr>normals := stl (normals g)\<rparr>)"

text \<open>The contract of the generator: every uniform variate lies in \<open>[0, 1)\<close>.\<close>

definition uniform_ok :: "np_random \<Rightarrow> bool" where
  "uniform_ok g = pred_stream (\<lambda>u. 0 \<le> u \<and> u < 1) (uniforms g)"

subsection \<open>The object and its constructor\<close>

record FireModel =
  elevation :: "cell \<Rightarrow> real"
  fuel :: "cell \<Rightarrow> int"
  rows :: int
  cols :: int
  cell_size :: real
  ignition_time :: "cell \<Rightarrow> real option"
  burnt :: "cell \<Rightarrow> bool"
  wind_speed :: real
  wind_dir :: real

definition k_slope :: real where
  "k_slope = 0.0693 / (pi / 180)"

definition base_rates :: "int \<rightharpoonup> real" where
  "base_rates = [0 \<mapsto> 0.1, 1 \<mapsto> 1.5, 2 \<mapsto> 0.5, 3 \<mapsto> 0.0]"

definition wind_sensitivity :: "int \<rightharpoonup> real" where
  "wind_sensitivity = [0 \<mapsto> 0.05, 1 \<mapsto> 0.25, 2 \<mapsto> 0.10, 3 \<mapsto> 0.0]"

text \<open>\<^verbatim>\<open>dict.get(key, default)\<close>.\<close>

definition dict_get :: "('k \<rightharpoonup> 'v) \<Rightarrow> 'k \<Rightarrow> 'v \<Rightarrow> 'v" where
  "dict_get d k dflt = (case d k of Some v \<Rightarrow> v | None \<Rightarrow> dflt)"

text \<open>
  \<^verbatim>\<open>__init__(elevation_map, fuel_map, wind_speed, wind_dir, cell_size)\<close>: the shape is
  that of the elevation raster, the ignition times start at \<^verbatim>\<open>np.inf\<close>, the wind
  direction is converted to radians. There is no generator among the arguments.
\<close>

definition FireModel_init ::
  "nat \<times> nat \<Rightarrow> (cell \<Rightarrow> real) \<Rightarrow> (cell \<Rightarrow> int) \<Rightarrow> real \<Rightarrow> real \<Rightarrow> real \<Rightarrow> FireModel" where
  "FireModel_init shape elevation_map fuel_map wind_speed' wind_dir' cell_size' =
     \<lparr> elevation = elevation_map, fuel = fuel_map,
       rows = int (fst shape), cols = int (snd shape),
       cell_size = cell_size',
       ignition_time = (\<lambda>_. None), burnt = (\<lambda>_. False),
       wind_speed = wind_speed', wind_dir = wind_dir' * pi / 180 \<rparr>"

subsection \<open>\<^verbatim>\<open>ignite\<close>\<close>

definition ignite :: "int \<Rightarrow> int \<Rightarrow> real \<Rightarrow> FireModel \<Rightarrow> FireModel" where
  "ignite r c start_time m =
     (if 0 \<le> r \<and> r < rows m \<and> 0 \<le> c \<and> c < cols m then
        (if fuel m (r, c) \<noteq> 3 then m\<lparr>ignition_time := (ignition_time m)((r, c) := Some start_time)\<rparr>
         else m)
      else m)"

subsection \<open>The priority queue\<close>

text \<open>
  \<^verbatim>\<open>heapq\<close> keeps a binary heap in a Python list. The run depends on its contract only:
  \<^verbatim>\<open>heappush\<close> adds an entry, \<^verbatim>\<open>heappop\<close> removes and returns the least entry, in the
  order of Python tuples \<open>(time, row, col)\<close>: lexicographic, which is the order of
  \<^typ>\<open>event\<close> here. The entries are kept as a list and the least one is extracted.
\<close>

definition heappush :: "event list \<Rightarrow> event \<Rightarrow> event list" where
  "heappush h e = e # h"

definition heappop :: "event list \<Rightarrow> event \<times> event list" where
  "heappop h = (let e = fold min (tl h) (hd h) in (e, remove1 e h))"

subsection \<open>numpy and Python arithmetic\<close>

text \<open>\<^verbatim>\<open>int(x)\<close> of a float truncates toward zero.\<close>

definition py_int :: "real \<Rightarrow> int" where
  "py_int x = (if 0 \<le> x then \<lfloor>x\<rfloor> else \<lceil>x\<rceil>)"

definition arctan2 :: "real \<Rightarrow> real \<Rightarrow> real" where
  "arctan2 y x =
     (if 0 < x then arctan (y / x)
      else if x < 0 then (if 0 \<le> y then arctan (y / x) + pi else arctan (y / x) - pi)
      else if 0 < y then pi / 2
      else if y < 0 then - (pi / 2)
      else 0)"

definition clip :: "real \<Rightarrow> real \<Rightarrow> real \<Rightarrow> real" where
  "clip x lo hi = min (max x lo) hi"

text \<open>
  Indexing a numpy array of extent \<open>n\<close> with \<open>i\<close>: a negative index counts from the end,
  an index outside \<open>[-n, n)\<close> raises \<^verbatim>\<open>IndexError\<close>.
\<close>

definition np_index :: "int \<Rightarrow> int \<Rightarrow> int option" where
  "np_index n i = (if 0 \<le> i \<and> i < n then Some i
                   else if - n \<le> i \<and> i < 0 then Some (i + n) else None)"

subsection \<open>\<^verbatim>\<open>run_simulation\<close>\<close>

text \<open>
  The state of the loop: the array \<^verbatim>\<open>self.ignition_time\<close>, the locals \<^verbatim>\<open>pq\<close> and
  \<^verbatim>\<open>visited\<close>, and the global generator. The other attributes of the object are read
  only; the loop reads them from the object \<open>m\<close> it was started on.
\<close>

record loop_state =
  ignition_time :: "cell \<Rightarrow> real option"
  pq :: "event list"
  visited :: "cell set"
  rng :: np_random

definition neighbors :: "(int \<times> int \<times> real) list" where
  "neighbors =
     [(-1, 0, 1.0), (1, 0, 1.0), (0, -1, 1.0), (0, 1, 1.0),
      (-1, -1, 1.414), (-1, 1, 1.414), (1, -1, 1.414), (1, 1, 1.414)]"

text \<open>\<^verbatim>\<open>new_time < self.ignition_time[nr, nc]\<close>, where the array may hold \<^verbatim>\<open>np.inf\<close>.\<close>

definition time_lt :: "real \<Rightarrow> real option \<Rightarrow> bool" where
  "time_lt t old = (case old of None \<Rightarrow> True | Some u \<Rightarrow> t < u)"

text \<open>Lines 93 to 100: the slope factor of the edge to the neighbour.\<close>

definition slope_factor :: "FireModel \<Rightarrow> real \<Rightarrow> cell \<Rightarrow> real \<Rightarrow> real" where
  "slope_factor m current_elev n dist_mult =
     (let dist = cell_size m * dist_mult;
          elev_diff = elevation m n - current_elev;
          slope_angle = arctan2 elev_diff dist
      in clip (exp (k_slope * slope_angle)) 0.1 8.0)"

text \<open>Lines 103 to 181: the wind factor of the edge in direction \<open>(dr, dc)\<close>.\<close>

definition wind_factor :: "FireModel \<Rightarrow> int \<Rightarrow> int \<times> int \<times> real \<Rightarrow> real" where
  "wind_factor m fuel_type d =
     (case d of (dr, dc, dist_mult) \<Rightarrow>
        let sensitivity = dict_get wind_sensitivity fuel_type 0.1 in
        if wind_speed m > 0 then
          let wd_r = cos (wind_dir m);
              wd_c = - sin (wind_dir m);
              dot = (wd_r * real_of_int dr + wd_c * real_of_int dc) / dist_mult
          in max 0.1 (1.0 + sensitivity * wind_speed m * dot)
        else 1.0)"

text \<open>Lines 183 and 184.\<close>

definition travel_time :: "FireModel \<Rightarrow> real \<Rightarrow> cell \<Rightarrow> int \<times> int \<times> real \<Rightarrow> real" where
  "travel_time m current_elev n d =
     (case d of (dr, dc, dist_mult) \<Rightarrow>
        let fuel_type = fuel m n;
            base_rate = dict_get base_rates fuel_type 0.5;
            dist = cell_size m * dist_mult;
            final_rate = base_rate * slope_factor m current_elev n dist_mult
                         * wind_factor m fuel_type d
        in dist / final_rate)"

text \<open>One pass of the loop over \<^verbatim>\<open>neighbors\<close> (lines 85 to 189), for the popped
  \<open>(curr_time, r, c)\<close>.\<close>

definition relax ::
  "FireModel \<Rightarrow> real \<Rightarrow> int \<Rightarrow> int \<Rightarrow> real \<Rightarrow> int \<times> int \<times> real \<Rightarrow> loop_state \<Rightarrow> loop_state" where
  "relax m curr_time r c current_elev d s =
     (case d of (dr, dc, dist_mult) \<Rightarrow>
        let nr = r + dr; nc = c + dc in
        if 0 \<le> nr \<and> nr < rows m \<and> 0 \<le> nc \<and> nc < cols m \<and> (nr, nc) \<notin> visited s then
          if fuel m (nr, nc) = 3 then s
          else
            let new_time = curr_time + travel_time m current_elev (nr, nc) d in
            if time_lt new_time (ignition_time s (nr, nc)) then
              s\<lparr>ignition_time := (ignition_time s)((nr, nc) := Some new_time),
                pq := heappush (pq s) (new_time, nr, nc)\<rparr>
            else s
        else s)"

text \<open>Line 199: the spotting distance, in cells.\<close>

definition spot_dist_px :: "FireModel \<Rightarrow> np_random \<Rightarrow> error + (int \<times> np_random)" where
  "spot_dist_px m g =
     (case np_random_randint 2 (py_int (wind_speed m * 0.5)) g of
        Inl e \<Rightarrow> Inl e
      | Inr (k, g') \<Rightarrow> Inr (k + 1, g'))"

text \<open>Lines 199 to 215: where and when the ember of the cell popped as
  \<open>(curr_time, r, c)\<close> lands. An exception leaves the generator as it was.\<close>

definition spot_event ::
  "FireModel \<Rightarrow> real \<Rightarrow> int \<Rightarrow> int \<Rightarrow> np_random \<Rightarrow> error + (event \<times> np_random)" where
  "spot_event m curr_time r c g =
     (case spot_dist_px m g of
        Inl e \<Rightarrow> Inl e
      | Inr (dist_px, g2) \<Rightarrow>
          (case np_random_normal 0 0.3 g2 of (z, g3) \<Rightarrow>
             let spot_angle = wind_dir m + z;
                 sp_r = py_int (real_of_int r + cos spot_angle * real_of_int dist_px);
                 sp_c = py_int (real_of_int c - sin spot_angle * real_of_int dist_px)
             in (case np_random_random g3 of (u, g4) \<Rightarrow>
                   let flight_time = 10.0 + u * 20.0;
                       spot_time = curr_time + flight_time
                   in Inr ((spot_time, sp_r, sp_c), g4))))"

text \<open>Lines 194 to 222: ember spotting from the cell just settled. \<open>n\<close> is the cell that
  \<^verbatim>\<open>self.fuel[r, c]\<close> reads.\<close>

definition ember_spotting ::
  "FireModel \<Rightarrow> real \<Rightarrow> int \<Rightarrow> int \<Rightarrow> cell \<Rightarrow> loop_state \<Rightarrow> (error \<times> loop_state) + loop_state" where
  "ember_spotting m curr_time r c n s =
     (if fuel m n = 2 \<and> wind_speed m > 5.0 then
        (case np_random_random (rng s) of (u, g1) \<Rightarrow>
           if u < 0.02 then
             (case spot_event m curr_time r c g1 of
                Inl e \<Rightarrow> Inl (e, s\<lparr>rng := g1\<rparr>)
              | Inr ((spot_time, sp_r, sp_c), g4) \<Rightarrow>
                  if 0 \<le> sp_r \<and> sp_r < rows m \<and> 0 \<le> sp_c \<and> sp_c < cols m
                     \<and> fuel m (sp_r, sp_c) \<in> {1, 2}
                     \<and> time_lt spot_time (ignition_time s (sp_r, sp_c))
                  then Inr (s\<lparr>ignition_time := (ignition_time s)((sp_r, sp_c) := Some spot_time),
                              pq := heappush (pq s) (spot_time, sp_r, sp_c),
                              rng := g4\<rparr>)
                  else Inr (s\<lparr>rng := g4\<rparr>))
           else Inr (s\<lparr>rng := g1\<rparr>))
      else Inr s)"

text \<open>Lines 80 to 189: the popped cell \<open>n\<close> is marked as visited and its eight
  neighbours are relaxed in the order of the list.\<close>

definition settle :: "FireModel \<Rightarrow> real \<Rightarrow> int \<Rightarrow> int \<Rightarrow> cell \<Rightarrow> loop_state \<Rightarrow> loop_state" where
  "settle m curr_time r c n s =
     fold (relax m curr_time r c (elevation m n)) neighbors (s\<lparr>visited := insert n (visited s)\<rparr>)"

text \<open>
  One iteration of \<^verbatim>\<open>while pq:\<close>, entered with a non-empty queue. It ends in
  \<^verbatim>\<open>break\<close> (the popped time is beyond \<open>max_time\<close>), in an exception, or at the loop
  head again (after \<^verbatim>\<open>continue\<close> or at the end of the body). The arrays are indexed
  with the popped \<open>(r, c)\<close> as numpy does it; the neighbours and the landing cell are
  computed from \<open>r\<close> and \<open>c\<close> themselves.
\<close>

datatype outcome = Continue loop_state | Break loop_state | Raise error loop_state

definition iteration :: "FireModel \<Rightarrow> real \<Rightarrow> loop_state \<Rightarrow> outcome" where
  "iteration m max_time s =
     (case heappop (pq s) of ((curr_time, r, c), pq') \<Rightarrow>
        let s1 = s\<lparr>pq := pq'\<rparr> in
        if curr_time > max_time then Break s1
        else
          (case (np_index (rows m) r, np_index (cols m) c) of
             (Some r', Some c') \<Rightarrow>
               if (r', c') \<in> visited s1 then Continue s1
               else
                 (case ember_spotting m curr_time r c (r', c') (settle m curr_time r c (r', c') s1) of
                    Inl (e, s4) \<Rightarrow> Raise e s4
                  | Inr s4 \<Rightarrow> Continue s4)
           | _ \<Rightarrow> Raise IndexError s1))"

text \<open>The cells of the grid, in the row-major order of \<^verbatim>\<open>np.argwhere\<close>.\<close>

definition cells :: "FireModel \<Rightarrow> cell list" where
  "cells m = concat (map (\<lambda>r. map (\<lambda>c. (r, c)) [0..cols m - 1]) [0..rows m - 1])"

text \<open>The size of the loop state that every pass through the loop head decreases: a
  settled cell leaves the unsettled ones and adds at most nine queue entries.\<close>

definition loop_measure :: "FireModel \<Rightarrow> loop_state \<Rightarrow> nat" where
  "loop_measure m s = 10 * card (set (cells m) - visited s) + length (pq s)"

subsection \<open>The loop terminates\<close>

lemma fold_min_Min: "fold min xs (x::'a::linorder) = Min (set (x # xs))"
  by (simp only: Min.set_eq_fold)

lemma heappop_fst: "h \<noteq> [] \<Longrightarrow> fst (heappop h) = Min (set h)"
  by (cases h) (simp_all add: heappop_def Let_def fold_min_Min del: set_simps)

lemma heappop_in: "h \<noteq> [] \<Longrightarrow> fst (heappop h) \<in> set h"
  by (simp add: heappop_fst)

lemma heappop_le: "h \<noteq> [] \<Longrightarrow> y \<in> set h \<Longrightarrow> fst (heappop h) \<le> y"
  by (simp add: heappop_fst)

lemma heappop_rest: "snd (heappop h) = remove1 (fst (heappop h)) h"
  by (simp add: heappop_def Let_def)

lemma heappop_length: "h \<noteq> [] \<Longrightarrow> Suc (length (snd (heappop h))) = length h"
proof -
  assume h: "h \<noteq> []"
  then have "length (remove1 (fst (heappop h)) h) = length h - 1"
    using heappop_in[of h] by (simp add: length_remove1)
  moreover have "0 < length h" using h by simp
  ultimately show ?thesis by (simp add: heappop_rest)
qed

lemma set_cells: "set (cells m) = {(r, c). 0 \<le> r \<and> r < rows m \<and> 0 \<le> c \<and> c < cols m}"
  by (auto simp: cells_def)

lemma np_index_range: "np_index n i = Some j \<Longrightarrow> 0 \<le> j \<and> j < n"
  by (auto simp: np_index_def split: if_splits)

lemma relax_visited: "visited (relax m t r c e d s) = visited s"
  by (cases d) (simp add: relax_def Let_def)

lemma relax_rng: "rng (relax m t r c e d s) = rng s"
  by (cases d) (simp add: relax_def Let_def)

lemma relax_length: "length (pq (relax m t r c e d s)) \<le> Suc (length (pq s))"
  by (cases d) (simp add: relax_def Let_def heappush_def)

lemma fold_relax_visited: "visited (fold (relax m t r c e) ds s) = visited s"
  by (induction ds arbitrary: s) (simp_all add: relax_visited)

lemma fold_relax_rng: "rng (fold (relax m t r c e) ds s) = rng s"
  by (induction ds arbitrary: s) (simp_all add: relax_rng)

lemma fold_relax_length: "length (pq (fold (relax m t r c e) ds s)) \<le> length ds + length (pq s)"
proof (induction ds arbitrary: s)
  case Nil then show ?case by simp
next
  case (Cons d ds)
  show ?case using Cons.IH[of "relax m t r c e d s"] relax_length[of m t r c e d s] by simp
qed

lemma ember_spotting_idle:
  "\<not> (fuel m n = 2 \<and> wind_speed m > 5.0) \<Longrightarrow> ember_spotting m t r c n s = Inr s"
  unfolding ember_spotting_def by (simp only: if_False)

lemma ember_spotting_cases:
  "(\<exists>g. ember_spotting m t r c n s = Inr (s\<lparr>rng := g\<rparr>)) \<or>
   (\<exists>g t' sr sc. ember_spotting m t r c n s =
       Inr (s\<lparr>ignition_time := (ignition_time s)((sr, sc) := Some t'),
             pq := heappush (pq s) (t', sr, sc), rng := g\<rparr>)) \<or>
   (\<exists>g e. ember_spotting m t r c n s = Inl (e, s\<lparr>rng := g\<rparr>))"
proof (cases "fuel m n = 2 \<and> wind_speed m > 5.0")
  case False
  then have "ember_spotting m t r c n s = Inr (s\<lparr>rng := rng s\<rparr>)"
    by (simp add: ember_spotting_idle)
  then show ?thesis by blast
next
  case True
  show ?thesis
    unfolding ember_spotting_def
    by (simp only: True if_True split: prod.split sum.split if_split) blast
qed

lemma ember_visited:
  "visited (case ember_spotting m t r c n s of Inl (e, s') \<Rightarrow> s' | Inr s' \<Rightarrow> s') = visited s"
  using ember_spotting_cases[of m t r c n s] by auto

lemma ember_length:
  "length (pq (case ember_spotting m t r c n s of Inl (e, s') \<Rightarrow> s' | Inr s' \<Rightarrow> s')) \<le> Suc (length (pq s))"
  using ember_spotting_cases[of m t r c n s] by (auto simp: heappush_def)

lemma iteration_cases [consumes 1, case_names break index stale visit]:
  assumes hp: "heappop (pq s) = ((t, r, c), pq')"
  obtains
    "t > max_time" "iteration m max_time s = Break (s\<lparr>pq := pq'\<rparr>)"
  | "\<not> t > max_time" "np_index (rows m) r = None \<or> np_index (cols m) c = None"
      "iteration m max_time s = Raise IndexError (s\<lparr>pq := pq'\<rparr>)"
  | r' c' where "\<not> t > max_time" "np_index (rows m) r = Some r'" "np_index (cols m) c = Some c'"
      "(r', c') \<in> visited s" "iteration m max_time s = Continue (s\<lparr>pq := pq'\<rparr>)"
  | r' c' where "\<not> t > max_time" "np_index (rows m) r = Some r'" "np_index (cols m) c = Some c'"
      "(r', c') \<notin> visited s"
      "iteration m max_time s =
         (case ember_spotting m t r c (r', c') (settle m t r c (r', c') (s\<lparr>pq := pq'\<rparr>)) of
            Inl (e, s4) \<Rightarrow> Raise e s4 | Inr s4 \<Rightarrow> Continue s4)"
proof (cases "t > max_time")
  case True
  then have "iteration m max_time s = Break (s\<lparr>pq := pq'\<rparr>)"
    by (simp add: iteration_def hp)
  with True that(1) show ?thesis by blast
next
  case nb: False
  show ?thesis
  proof (cases "np_index (rows m) r")
    case None
    then have "iteration m max_time s = Raise IndexError (s\<lparr>pq := pq'\<rparr>)"
      using nb by (simp add: iteration_def hp)
    with nb None that(2) show ?thesis by blast
  next
    case r': (Some r')
    show ?thesis
    proof (cases "np_index (cols m) c")
      case None
      then have "iteration m max_time s = Raise IndexError (s\<lparr>pq := pq'\<rparr>)"
        using nb r' by (simp add: iteration_def hp)
      with nb None that(2) show ?thesis by blast
    next
      case c': (Some c')
      show ?thesis
      proof (cases "(r', c') \<in> visited s")
        case True
        then have "iteration m max_time s = Continue (s\<lparr>pq := pq'\<rparr>)"
          using nb r' c' by (simp add: iteration_def hp)
        with nb r' c' True that(3) show ?thesis by blast
      next
        case False
        then have "iteration m max_time s =
         (case ember_spotting m t r c (r', c') (settle m t r c (r', c') (s\<lparr>pq := pq'\<rparr>)) of
            Inl (e, s4) \<Rightarrow> Raise e s4 | Inr s4 \<Rightarrow> Continue s4)"
          using nb r' c' by (simp add: iteration_def hp settle_def)
        with nb r' c' False that(4) show ?thesis by blast
      qed
    qed
  qed
qed

lemma settle_visited: "visited (settle m t r c n s) = insert n (visited s)"
  by (simp add: settle_def fold_relax_visited)

lemma settle_rng: "rng (settle m t r c n s) = rng s"
  by (simp add: settle_def fold_relax_rng)

lemma settle_length: "length (pq (settle m t r c n s)) \<le> 8 + length (pq s)"
  using fold_relax_length[of m t r c "elevation m n" neighbors "s\<lparr>visited := insert n (visited s)\<rparr>"]
  by (simp add: settle_def neighbors_def)

lemma iteration_decreases:
  assumes ne: "pq s \<noteq> []" and it: "iteration m max_time s = Continue s'"
  shows "loop_measure m s' < loop_measure m s"
proof -
  obtain t r c pq' where hp: "heappop (pq s) = ((t, r, c), pq')"
    by (cases "heappop (pq s)") auto
  have len: "Suc (length pq') = length (pq s)" using heappop_length[OF ne] hp by simp
  from hp show ?thesis
  proof (cases rule: iteration_cases[where m = m and max_time = max_time])
    case break
    then show ?thesis using it by simp
  next
    case index
    then show ?thesis using it by simp
  next
    case (stale r' c')
    then show ?thesis using it len by (auto simp: loop_measure_def)
  next
    case (visit r' c')
    let ?s3 = "settle m t r c (r', c') (s\<lparr>pq := pq'\<rparr>)"
    from visit(5) it have s': "s' = (case ember_spotting m t r c (r', c') ?s3 of Inl (e, s4) \<Rightarrow> s4 | Inr s4 \<Rightarrow> s4)"
      by (auto split: sum.splits)
    have v: "visited s' = insert (r', c') (visited s)"
      unfolding s' by (simp add: ember_visited settle_visited)
    have "length (pq s') \<le> Suc (length (pq ?s3))"
      unfolding s' by (rule ember_length)
    also have "\<dots> \<le> Suc (8 + length pq')"
      using settle_length[of m t r c "(r', c')" "s\<lparr>pq := pq'\<rparr>"] by simp
    finally have l: "length (pq s') \<le> 9 + length pq'" by simp
    have "(r', c') \<in> set (cells m)"
      using np_index_range[OF visit(2)] np_index_range[OF visit(3)] by (simp add: set_cells)
    then have "card (set (cells m) - visited s') < card (set (cells m) - visited s)"
      unfolding v using visit(4) by (intro psubset_card_mono) auto
    then show ?thesis using l len by (simp add: loop_measure_def)
  qed
qed

text \<open>The loop \<^verbatim>\<open>while pq:\<close>. Its result is the state at the normal exit, or the
  exception with the state it leaves behind.\<close>

function run_loop :: "FireModel \<Rightarrow> real \<Rightarrow> loop_state \<Rightarrow> (error \<times> loop_state) + loop_state" where
  "run_loop m max_time s =
     (if pq s = [] then Inr s
      else (case iteration m max_time s of
              Continue s' \<Rightarrow> run_loop m max_time s'
            | Break s' \<Rightarrow> Inr s'
            | Raise e s' \<Rightarrow> Inl (e, s')))"
  by pat_completeness auto
termination
  by (relation "measure (\<lambda>(m, max_time, s). loop_measure m s)")
     (auto intro: iteration_decreases)


declare run_loop.simps [simp del]

text \<open>The states at the loop head in which the queue is not empty, in the order of the
  run: one for every \<^verbatim>\<open>heappop\<close> of the run.\<close>

function loop_heads :: "FireModel \<Rightarrow> real \<Rightarrow> loop_state \<Rightarrow> loop_state list" where
  "loop_heads m max_time s =
     (if pq s = [] then []
      else s # (case iteration m max_time s of
                  Continue s' \<Rightarrow> loop_heads m max_time s'
                | Break s' \<Rightarrow> []
                | Raise e s' \<Rightarrow> []))"
  by pat_completeness auto
termination
  by (relation "measure (\<lambda>(m, max_time, s). loop_measure m s)")
     (auto intro: iteration_decreases)

declare loop_heads.simps [simp del]

text \<open>The events the run pops, in order.\<close>

definition pop_sequence :: "FireModel \<Rightarrow> real \<Rightarrow> loop_state \<Rightarrow> event list" where
  "pop_sequence m max_time s = map (\<lambda>s'. fst (heappop (pq s'))) (loop_heads m max_time s)"

text \<open>Lines 57 to 62: the queue is filled from the cells whose ignition time is finite,
  in the order of \<^verbatim>\<open>np.argwhere\<close>; nothing is visited.\<close>

definition start_cells :: "FireModel \<Rightarrow> cell list" where
  "start_cells m = filter (\<lambda>n. FireModel.ignition_time m n \<noteq> None) (cells m)"

definition start_state :: "FireModel \<Rightarrow> np_random \<Rightarrow> loop_state" where
  "start_state m g =
     \<lparr> ignition_time = FireModel.ignition_time m,
       pq = fold (\<lambda>(r, c) h. heappush h (the (FireModel.ignition_time m (r, c)), r, c))
              (start_cells m) [],
       visited = {},
       rng = g \<rparr>"

text \<open>
  \<^verbatim>\<open>run_simulation(max_time)\<close>, called while the global generator is in state \<open>g\<close>.
  The model returns the final state of the loop: its \<open>ignition_time\<close> is the array the
  method returns (and \<^verbatim>\<open>self.ignition_time\<close> after the call), its \<open>rng\<close> is the global
  generator after the call, its \<open>visited\<close> are the cells the run has settled.
\<close>

definition run_simulation ::
  "FireModel \<Rightarrow> real \<Rightarrow> np_random \<Rightarrow> (error \<times> loop_state) + loop_state" where
  "run_simulation m max_time g = run_loop m max_time (start_state m g)"

text \<open>The state a run ends in, whether it returns or raises.\<close>

definition final_state :: "(error \<times> loop_state) + loop_state \<Rightarrow> loop_state" where
  "final_state res = (case res of Inl (e, s) \<Rightarrow> s | Inr s \<Rightarrow> s)"

text \<open>Whether a run raised, and what.\<close>

definition raised :: "(error \<times> loop_state) + loop_state \<Rightarrow> error option" where
  "raised res = (case res of Inl (e, s) \<Rightarrow> Some e | Inr s \<Rightarrow> None)"

subsection \<open>Predicates of the proofs\<close>

text \<open>
  The calls of \<^verbatim>\<open>np.random\<close> that the spotting block (lines 194 to 222) makes for the
  settled cell \<open>n\<close> when the generator is in state \<open>g\<close>: the number of uniform variates
  and the number of normal variates it consumes. Line 197 draws one uniform variate;
  below 0.02, line 199 raises or draws a second one, and then line 203 draws a normal
  variate and line 214 a third uniform one.
\<close>

definition ember_draws :: "FireModel \<Rightarrow> cell \<Rightarrow> np_random \<Rightarrow> nat \<times> nat" where
  "ember_draws m n g =
     (if fuel m n = 2 \<and> wind_speed m > 5.0 then
        (if shd (uniforms g) < 0.02 then
           (if 2 \<ge> py_int (wind_speed m * 0.5) then (1, 0) else (3, 1))
         else (1, 0))
      else (0, 0))"

text \<open>The draws of one iteration of the loop: those of the spotting block when the
  iteration settles a cell, none otherwise.\<close>

definition iteration_draws :: "FireModel \<Rightarrow> real \<Rightarrow> loop_state \<Rightarrow> nat \<times> nat" where
  "iteration_draws m max_time s =
     (case heappop (pq s) of ((curr_time, r, c), pq') \<Rightarrow>
        if curr_time > max_time then (0, 0)
        else
          (case (np_index (rows m) r, np_index (cols m) c) of
             (Some r', Some c') \<Rightarrow>
               if (r', c') \<in> visited s then (0, 0) else ember_draws m (r', c') (rng s)
           | _ \<Rightarrow> (0, 0)))"

text \<open>The draws of the whole loop started in state \<open>s\<close>: the sum over its iterations.\<close>

definition uniform_draws :: "FireModel \<Rightarrow> real \<Rightarrow> loop_state \<Rightarrow> nat" where
  "uniform_draws m max_time s =
     sum_list (map (\<lambda>s'. fst (iteration_draws m max_time s')) (loop_heads m max_time s))"

definition normal_draws :: "FireModel \<Rightarrow> real \<Rightarrow> loop_state \<Rightarrow> nat" where
  "normal_draws m max_time s =
     sum_list (map (\<lambda>s'. snd (iteration_draws m max_time s')) (loop_heads m max_time s))"

text \<open>The generator after \<open>k\<close> uniform and \<open>j\<close> normal variates have been drawn from it.\<close>

definition advance :: "nat \<Rightarrow> nat \<Rightarrow> np_random \<Rightarrow> np_random" where
  "advance k j g = g\<lparr>uniforms := sdrop k (uniforms g), normals := sdrop j (normals g)\<rparr>"

text \<open>Two states of the generator hand out the same first \<open>k\<close> uniform and the same
  first \<open>j\<close> normal variates.\<close>

definition same_variates :: "nat \<Rightarrow> nat \<Rightarrow> np_random \<Rightarrow> np_random \<Rightarrow> bool" where
  "same_variates k j g g' =
     (stake k (uniforms g') = stake k (uniforms g) \<and> stake j (normals g') = stake j (normals g))"

text \<open>The same outcome, or the same result of a run, with the generator in state \<open>g\<close>.\<close>

definition outcome_state :: "outcome \<Rightarrow> loop_state" where
  "outcome_state out = (case out of Continue s \<Rightarrow> s | Break s \<Rightarrow> s | Raise e s \<Rightarrow> s)"

definition outcome_with_rng :: "np_random \<Rightarrow> outcome \<Rightarrow> outcome" where
  "outcome_with_rng g out =
     (case out of Continue s \<Rightarrow> Continue (s\<lparr>rng := g\<rparr>)
      | Break s \<Rightarrow> Break (s\<lparr>rng := g\<rparr>)
      | Raise e s \<Rightarrow> Raise e (s\<lparr>rng := g\<rparr>))"

definition result_with_rng ::
  "np_random \<Rightarrow> (error \<times> loop_state) + loop_state \<Rightarrow> (error \<times> loop_state) + loop_state" where
  "result_with_rng g res =
     (case res of Inl (e, s) \<Rightarrow> Inl (e, s\<lparr>rng := g\<rparr>) | Inr s \<Rightarrow> Inr (s\<lparr>rng := g\<rparr>))"

text \<open>The invariant of a run with \<open>max_time = 0\<close> whose seeds \<open>Z\<close> were all lit at time 0:
  only seeds are settled, the seeds hold time 0, every other cell holds \<^verbatim>\<open>np.inf\<close> or a
  positive time, the queue names cells of the grid, with time 0 for seeds only, and every
  seed is settled or still queued with time 0.\<close>

definition horizon_inv :: "FireModel \<Rightarrow> cell set \<Rightarrow> loop_state \<Rightarrow> bool" where
  "horizon_inv m Z s =
     (visited s \<subseteq> Z
      \<and> (\<forall>n\<in>Z. ignition_time s n = Some 0)
      \<and> (\<forall>n. n \<notin> Z \<longrightarrow> ignition_time s n = None \<or> (\<exists>t>0. ignition_time s n = Some t))
      \<and> (\<forall>(t, r, c)\<in>set (pq s).
            (0 \<le> r \<and> r < rows m \<and> 0 \<le> c \<and> c < cols m) \<and> (t = 0 \<and> (r, c) \<in> Z \<or> 0 < t))
      \<and> (\<forall>(r, c)\<in>Z. (r, c) \<in> visited s \<or> (0, r, c) \<in> set (pq s))
      \<and> uniform_ok (rng s))"

subsection \<open>Paths and barriers\<close>

text \<open>Two cells are 8-connected neighbours.\<close>

definition adjacent8 :: "cell \<Rightarrow> cell \<Rightarrow> bool" where
  "adjacent8 n n' = (max \<bar>fst n' - fst n\<bar> \<bar>snd n' - snd n\<bar> = 1)"

text \<open>An 8-connected path of cells of the grid that passes through no Water cell.\<close>

fun water_free_path :: "FireModel \<Rightarrow> cell list \<Rightarrow> bool" where
  "water_free_path m [] = False"
| "water_free_path m [n] = (n \<in> set (cells m) \<and> fuel m n \<noteq> 3)"
| "water_free_path m (n # n' # p) =
     (n \<in> set (cells m) \<and> fuel m n \<noteq> 3 \<and> adjacent8 n n' \<and> water_free_path m (n' # p))"

text \<open>The seeds of a run are the cells that hold a finite ignition time when it starts. A
  cell is connected when a Water-free path leads from some seed to it.\<close>

definition connected :: "FireModel \<Rightarrow> cell \<Rightarrow> bool" where
  "connected m target =
     (\<exists>p. water_free_path m p \<and> FireModel.ignition_time m (hd p) \<noteq> None \<and> last p = target)"

text \<open>Every finite ignition time and every queue entry belongs to a cell of \<open>P\<close>.\<close>

definition confined :: "FireModel \<Rightarrow> cell set \<Rightarrow> loop_state \<Rightarrow> bool" where
  "confined m P s =
     ((\<forall>n. ignition_time s n \<noteq> None \<longrightarrow> n \<in> P)
      \<and> (\<forall>(t, r, c)\<in>set (pq s). (r, c) \<in> P \<and> (r, c) \<in> set (cells m)))"

text \<open>
  The invariant behind the spread of the fire. Every queue entry names a cell of the grid
  with a finite time and is bounded by \<open>S + card visited * D\<close>; every cell with a finite
  time is settled or queued with that time; the settled cells are cells of the grid with
  a finite time; the seeds keep a finite time.
\<close>

definition spread_inv :: "FireModel \<Rightarrow> real \<Rightarrow> real \<Rightarrow> loop_state \<Rightarrow> bool" where
  "spread_inv m S D s =
     ((\<forall>(t, r, c)\<in>set (pq s). (r, c) \<in> set (cells m) \<and> ignition_time s (r, c) \<noteq> None
           \<and> t \<le> S + real (card (visited s)) * D)
      \<and> (\<forall>r c t. ignition_time s (r, c) = Some t \<longrightarrow> (r, c) \<in> visited s \<or> (t, r, c) \<in> set (pq s))
      \<and> visited s \<subseteq> set (cells m)
      \<and> (\<forall>n\<in>visited s. ignition_time s n \<noteq> None)
      \<and> (\<forall>n. FireModel.ignition_time m n \<noteq> None \<longrightarrow> ignition_time s n \<noteq> None)
      \<and> uniform_ok (rng s))"

text \<open>Every neighbour of a settled cell that lies in the grid and is not Water has a
  finite time.\<close>

definition closed_inv :: "FireModel \<Rightarrow> loop_state \<Rightarrow> bool" where
  "closed_inv m s =
     (\<forall>n\<in>visited s. \<forall>n'. adjacent8 n n' \<and> n' \<in> set (cells m) \<and> fuel m n' \<noteq> 3 \<longrightarrow>
          ignition_time s n' \<noteq> None)"

subsection \<open>Example inputs\<close>

text \<open>A strip of four Forest cells, one below the other, flat, with a wind of 10 m/s from
  the north and the fire lit at the top.\<close>

definition strip :: FireModel where
  "strip = ignite 0 0 0 (FireModel_init (4, 1) (\<lambda>_. 0) (\<lambda>_. 2) 10 0 30)"

text \<open>Two states of the global generator. In the first, the first visit of a Forest cell
  throws an ember (the first uniform variate is below 0.02); in the second no visit does.\<close>

definition g_spot :: np_random where
  "g_spot = \<lparr>uniforms = 0 ## 0 ## 0 ## sconst (1 / 2), normals = sconst 0\<rparr>"

definition g_calm :: np_random where
  "g_calm = \<lparr>uniforms = sconst (1 / 2), normals = sconst 0\<rparr>"

text \<open>A third state: it hands out the same first six uniform variates and the same first
  normal variate as \<open>g_spot\<close>, and other ones afterwards.\<close>

definition g_spot_then :: np_random where
  "g_spot_then = \<lparr>uniforms = 0 ## 0 ## 0 ## (1 / 2) ## (1 / 2) ## (1 / 2) ## sconst (3 / 4),
                   normals = 0 ## sconst 1\<rparr>"

text \<open>A flat two by two grid of Grass without wind, lit in two cells at time 0.\<close>

definition two_seeds :: FireModel where
  "two_seeds = ignite 1 0 0 (ignite 0 1 0 (FireModel_init (2, 2) (\<lambda>_. 0) (\<lambda>_. 1) 0 0 30))"

text \<open>A single Grass cell that has been lit at time 5.\<close>

definition lit_cell :: FireModel where
  "lit_cell = ignite 0 0 5 (FireModel_init (1, 1) (\<lambda>_. 0) (\<lambda>_. 1) 0 0 30)"

text \<open>A single Water cell.\<close>

definition pond :: FireModel where
  "pond = FireModel_init (1, 1) (\<lambda>_. 0) (\<lambda>_. 3) 0 0 30"

text \<open>A single Forest cell, lit at time 0, under a wind of 5.5 m/s.\<close>

definition gusty :: FireModel where
  "gusty = ignite 0 0 0 (FireModel_init (1, 1) (\<lambda>_. 0) (\<lambda>_. 2) 5.5 0 30)"

text \<open>A single Grass cell, lit at time 0, under a wind of 10 m/s.\<close>

definition meadow :: FireModel where
  "meadow = ignite 0 0 0 (FireModel_init (1, 1) (\<lambda>_. 0) (\<lambda>_. 1) 10 0 30)"

text \<open>The isotropic baseline: a flat five by five grid of Forest with cell size 30, no wind,
  lit in the middle at time 0.\<close>

definition flat5 :: FireModel where
  "flat5 = ignite 2 2 0 (FireModel_init (5, 5) (\<lambda>_. 0) (\<lambda>_. 2) 0 0 30)"

text \<open>A strip of four cells under a wind of 10 m/s from the north: Forest, Water, Forest,
  Forest, lit at the top. The same strip without wind.\<close>

definition moat :: FireModel where
  "moat = ignite 0 0 0 (FireModel_init (4, 1) (\<lambda>_. 0) ((\<lambda>_. 2)((1, 0) := 3)) 10 0 30)"

definition still_moat :: FireModel where
  "still_moat = ignite 0 0 0 (FireModel_init (4, 1) (\<lambda>_. 0) ((\<lambda>_. 2)((1, 0) := 3)) 0 0 30)"

subsection \<open>Reasoning about the loop\<close>

lemma run_loop_invariant:
  assumes "I s"
    and "\<And>s s'. I s \<Longrightarrow> pq s \<noteq> [] \<Longrightarrow> iteration m max_time s = Continue s' \<Longrightarrow> I s'"
    and "\<And>s s'. I s \<Longrightarrow> pq s \<noteq> [] \<Longrightarrow> iteration m max_time s = Break s' \<Longrightarrow> Q s'"
    and "\<And>s s' e. I s \<Longrightarrow> pq s \<noteq> [] \<Longrightarrow> iteration m max_time s = Raise e s' \<Longrightarrow> Q s'"
    and "\<And>s. I s \<Longrightarrow> pq s = [] \<Longrightarrow> Q s"
  shows "Q (final_state (run_loop m max_time s))"
  using assms
proof (induction m max_time s rule: run_loop.induct)
  case (1 m max_time s)
  note inv = "1.prems"(1) and step = "1.prems"(2) and brk = "1.prems"(3)
    and rse = "1.prems"(4) and emp = "1.prems"(5)
  show ?case
  proof (cases "pq s = []")
    case True
    then show ?thesis using emp[OF inv] by (simp add: run_loop.simps final_state_def)
  next
    case False
    show ?thesis
    proof (cases "iteration m max_time s")
      case (Continue s')
      have "Q (final_state (run_loop m max_time s'))"
        using step[OF inv False Continue] step brk rse emp
        by (intro "1.IH"[OF False Continue]) blast+
      then show ?thesis
        using False Continue by (simp add: run_loop.simps[of m max_time s])
    next
      case (Break s')
      then show ?thesis using False brk[OF inv False Break]
        by (simp add: run_loop.simps[of m max_time s] final_state_def)
    next
      case (Raise e s')
      then show ?thesis using False rse[OF inv False Raise]
        by (simp add: run_loop.simps[of m max_time s] final_state_def)
    qed
  qed
qed

lemma pop_sequence_unfold:
  "pop_sequence m max_time s =
     (if pq s = [] then []
      else fst (heappop (pq s)) #
           (case iteration m max_time s of Continue s' \<Rightarrow> pop_sequence m max_time s'
            | Break s' \<Rightarrow> [] | Raise e s' \<Rightarrow> []))"
  by (simp add: pop_sequence_def loop_heads.simps[of m max_time s] split: outcome.split)

lemma fold_relax_invariant:
  assumes "P s" and "\<And>d s. d \<in> set ds \<Longrightarrow> P s \<Longrightarrow> P (relax m t r c e d s)"
  shows "P (fold (relax m t r c e) ds s)"
  using assms by (induction ds arbitrary: s) auto

subsection \<open>Rates and travel times\<close>

lemma base_rate_ge: "ft \<noteq> 3 \<Longrightarrow> 1 / 10 \<le> dict_get base_rates ft 0.5"
  by (simp add: dict_get_def base_rates_def)

lemma slope_factor_ge: "1 / 10 \<le> slope_factor m e n dist_mult"
proof -
  have "1 / 10 \<le> min (max x (1 / 10)) (8::real)" for x by simp
  then show ?thesis by (simp add: slope_factor_def clip_def Let_def)
qed

lemma wind_factor_ge: "1 / 10 \<le> wind_factor m ft d"
proof -
  obtain dr dc dm where d: "d = (dr, dc, dm)" by (cases d) auto
  define x where "x = 1.0 + dict_get wind_sensitivity ft 0.1 * wind_speed m
      * ((cos (wind_dir m) * real_of_int dr + - sin (wind_dir m) * real_of_int dc) / dm)"
  have eq: "wind_factor m ft d = (if wind_speed m > 0 then max 0.1 x else 1.0)"
    by (simp add: wind_factor_def d Let_def x_def)
  have "(1 / 10::real) \<le> max 0.1 x" by (simp add: le_max_iff_disj)
  then show ?thesis unfolding eq by (cases "wind_speed m > 0") auto
qed

lemma final_rate_ge:
  assumes "ft \<noteq> 3"
  shows "1 / 1000 \<le> dict_get base_rates ft 0.5 * slope_factor m e n dist_mult * wind_factor m ft d"
proof -
  let ?b = "dict_get base_rates ft 0.5" and ?s = "slope_factor m e n dist_mult"
    and ?w = "wind_factor m ft d"
  have b: "1 / 10 \<le> ?b" by (rule base_rate_ge[OF assms])
  have s: "1 / 10 \<le> ?s" by (rule slope_factor_ge)
  have w: "1 / 10 \<le> ?w" by (rule wind_factor_ge)
  have "1 / 10 * (1 / 10) \<le> ?b * ?s"
    using b s by (intro mult_mono) linarith+
  moreover have "0 \<le> ?b * ?s" using b s by (intro mult_nonneg_nonneg) linarith+
  ultimately have "1 / 10 * (1 / 10) * (1 / 10) \<le> ?b * ?s * ?w"
    using b s w by (intro mult_mono) linarith+
  then show ?thesis by simp
qed

lemma neighbors_mult: "(dr, dc, dist_mult) \<in> set neighbors \<Longrightarrow> 1 \<le> dist_mult \<and> dist_mult \<le> 1.414"
  by (auto simp: neighbors_def)

lemma travel_time_nonneg:
  assumes "0 \<le> cell_size m" "fuel m n \<noteq> 3" "d \<in> set neighbors"
  shows "0 \<le> travel_time m e n d"
proof -
  obtain dr dc dist_mult where d: "d = (dr, dc, dist_mult)" by (cases d) auto
  have "0 \<le> cell_size m * dist_mult" using assms(1,3) neighbors_mult[of dr dc dist_mult] d by simp
  moreover have "0 < dict_get base_rates (fuel m n) 0.5 * slope_factor m e n dist_mult * wind_factor m (fuel m n) d"
    using final_rate_ge[OF assms(2), of m e n dist_mult d] by simp
  ultimately show ?thesis by (simp add: travel_time_def d Let_def)
qed

lemma travel_time_pos:
  assumes "0 < cell_size m" "fuel m n \<noteq> 3" "d \<in> set neighbors"
  shows "0 < travel_time m e n d"
proof -
  obtain dr dc dist_mult where d: "d = (dr, dc, dist_mult)" by (cases d) auto
  have "0 < cell_size m * dist_mult" using assms(1,3) neighbors_mult[of dr dc dist_mult] d by simp
  moreover have "0 < dict_get base_rates (fuel m n) 0.5 * slope_factor m e n dist_mult * wind_factor m (fuel m n) d"
    using final_rate_ge[OF assms(2), of m e n dist_mult d] by simp
  ultimately show ?thesis by (simp add: travel_time_def d Let_def)
qed

subsection \<open>The generator\<close>

lemma uniform_ok_shd: "uniform_ok g \<Longrightarrow> 0 \<le> shd (uniforms g) \<and> shd (uniforms g) < 1"
  using shd_sset[of "uniforms g"] by (auto simp: uniform_ok_def stream.pred_set)

lemma uniform_ok_stl: "uniform_ok g \<Longrightarrow> uniform_ok (g\<lparr>uniforms := stl (uniforms g)\<rparr>)"
  using stl_sset[of _ "uniforms g"] by (auto simp: uniform_ok_def stream.pred_set)

lemma uniform_ok_normals: "uniform_ok (g\<lparr>normals := ns\<rparr>) = uniform_ok g"
  by (simp add: uniform_ok_def)

lemma np_random_random_ok:
  "np_random_random g = (u, g') \<Longrightarrow> uniform_ok g \<Longrightarrow> 0 \<le> u \<and> u < 1 \<and> uniform_ok g'"
  using uniform_ok_shd[of g] uniform_ok_stl[of g] by (auto simp: np_random_random_def)

lemma np_random_randint_ok:
  "np_random_randint low high g = Inr (k, g') \<Longrightarrow> uniform_ok g \<Longrightarrow>
     low < high \<and> low \<le> k \<and> k < high \<and> uniform_ok g'"
proof -
  assume a: "np_random_randint low high g = Inr (k, g')" and ok: "uniform_ok g"
  let ?u = "shd (uniforms g)"
  from a have lh: "low < high" and k: "k = low + \<lfloor>?u * real_of_int (high - low)\<rfloor>"
    and g': "g' = g\<lparr>uniforms := stl (uniforms g)\<rparr>"
    by (auto simp: np_random_randint_def split: if_splits)
  have u: "0 \<le> ?u" "?u < 1" using uniform_ok_shd[OF ok] by auto
  have "0 \<le> ?u * real_of_int (high - low)" using u lh by simp
  then have lo: "0 \<le> \<lfloor>?u * real_of_int (high - low)\<rfloor>" by simp
  have "?u * real_of_int (high - low) < 1 * real_of_int (high - low)"
    using u lh by (intro mult_strict_right_mono) auto
  then have "\<lfloor>?u * real_of_int (high - low)\<rfloor> < high - low" by (simp add: floor_less_iff)
  then show ?thesis using lh lo k g' uniform_ok_stl[OF ok] by simp
qed

lemma spot_event_ok:
  assumes "spot_event m t r c g = Inr ((t', sr, sc), g')" "uniform_ok g"
  shows "t + 10 \<le> t' \<and> t' < t + 30 \<and> uniform_ok g'"
proof -
  from assms(1) obtain k g2 where d: "spot_dist_px m g = Inr (k, g2)"
    by (auto simp: spot_event_def split: sum.splits)
  then obtain k0 where "np_random_randint 2 (py_int (wind_speed m * 0.5)) g = Inr (k0, g2)"
    by (auto simp: spot_dist_px_def split: sum.splits)
  then have ok2: "uniform_ok g2" using np_random_randint_ok assms(2) by blast
  let ?g3 = "g2\<lparr>normals := stl (normals g2)\<rparr>"
  have ok3: "uniform_ok ?g3" using ok2 by (simp add: uniform_ok_normals)
  from assms(1) d have t': "t' = t + (10 + shd (uniforms ?g3) * 20)"
    and g': "g' = ?g3\<lparr>uniforms := stl (uniforms ?g3)\<rparr>"
    by (auto simp: spot_event_def np_random_normal_def np_random_random_def Let_def)
  show ?thesis using uniform_ok_shd[OF ok3] uniform_ok_stl[OF ok3] t' g' by simp
qed

subsection \<open>What one relaxation and one spotting do\<close>

lemma relax_cases:
  "relax m t r c e (dr, dc, dm) s = s \<or>
   (0 \<le> r + dr \<and> r + dr < rows m \<and> 0 \<le> c + dc \<and> c + dc < cols m
    \<and> (r + dr, c + dc) \<notin> visited s \<and> fuel m (r + dr, c + dc) \<noteq> 3
    \<and> time_lt (t + travel_time m e (r + dr, c + dc) (dr, dc, dm)) (ignition_time s (r + dr, c + dc))
    \<and> relax m t r c e (dr, dc, dm) s =
        s\<lparr>ignition_time := (ignition_time s)((r + dr, c + dc) :=
              Some (t + travel_time m e (r + dr, c + dc) (dr, dc, dm))),
          pq := heappush (pq s) (t + travel_time m e (r + dr, c + dc) (dr, dc, dm), r + dr, c + dc)\<rparr>)"
  by (simp add: relax_def Let_def)

lemma spot_event_raises:
  "spot_event m t r c g = Inl e \<Longrightarrow> e = ValueError \<and> py_int (wind_speed m * 0.5) \<le> 2"
  by (auto simp: spot_event_def spot_dist_px_def np_random_randint_def np_random_normal_def
      np_random_random_def Let_def split: sum.splits if_splits)

lemma ember_spotting_outcomes [case_names idle miss spot raise]:
  obtains
    "\<not> (fuel m n = 2 \<and> wind_speed m > 5)" "ember_spotting m t r c n s = Inr s"
  | g where "fuel m n = 2" "wind_speed m > 5" "ember_spotting m t r c n s = Inr (s\<lparr>rng := g\<rparr>)"
      "uniform_ok (rng s) \<longrightarrow> uniform_ok g"
  | g t' sr sc where "fuel m n = 2" "wind_speed m > 5"
      "0 \<le> sr \<and> sr < rows m \<and> 0 \<le> sc \<and> sc < cols m" "fuel m (sr, sc) \<in> {1, 2}"
      "time_lt t' (ignition_time s (sr, sc))"
      "uniform_ok (rng s) \<longrightarrow> t + 10 \<le> t' \<and> t' < t + 30 \<and> uniform_ok g"
      "ember_spotting m t r c n s =
         Inr (s\<lparr>ignition_time := (ignition_time s)((sr, sc) := Some t'),
               pq := heappush (pq s) (t', sr, sc), rng := g\<rparr>)"
  | g where "fuel m n = 2" "wind_speed m > 5" "py_int (wind_speed m * 0.5) \<le> 2"
      "uniform_ok (rng s) \<longrightarrow> uniform_ok g"
      "ember_spotting m t r c n s = Inl (ValueError, s\<lparr>rng := g\<rparr>)"
proof (cases "fuel m n = 2 \<and> wind_speed m > 5.0")
  case False
  then have "ember_spotting m t r c n s = Inr s" by (rule ember_spotting_idle)
  with False that(1) show ?thesis by simp
next
  case True
  obtain u g1 where r1: "np_random_random (rng s) = (u, g1)" by (cases "np_random_random (rng s)")
  have ok1: "uniform_ok (rng s) \<longrightarrow> uniform_ok g1" using np_random_random_ok[OF r1] by blast
  show ?thesis
  proof (cases "u < 0.02")
    case False
    then have "ember_spotting m t r c n s = Inr (s\<lparr>rng := g1\<rparr>)"
      unfolding ember_spotting_def using True r1 by simp
    with True ok1 that(2) show ?thesis by simp
  next
    case u: True
    show ?thesis
    proof (cases "spot_event m t r c g1")
      case (Inl e)
      then have "ember_spotting m t r c n s = Inl (ValueError, s\<lparr>rng := g1\<rparr>)"
        unfolding ember_spotting_def using True r1 u spot_event_raises[OF Inl] by simp
      with True ok1 spot_event_raises[OF Inl] that(4) show ?thesis by simp
    next
      case (Inr x)
      then obtain t' sr sc g4 where ev: "spot_event m t r c g1 = Inr ((t', sr, sc), g4)"
        by (cases x) auto
      have ok4: "uniform_ok (rng s) \<longrightarrow> t + 10 \<le> t' \<and> t' < t + 30 \<and> uniform_ok g4"
        using spot_event_ok[OF ev] ok1 by blast
      show ?thesis
      proof (cases "0 \<le> sr \<and> sr < rows m \<and> 0 \<le> sc \<and> sc < cols m
                     \<and> fuel m (sr, sc) \<in> {1, 2} \<and> time_lt t' (ignition_time s (sr, sc))")
        case lands: True
        then have eq: "ember_spotting m t r c n s =
           Inr (s\<lparr>ignition_time := (ignition_time s)((sr, sc) := Some t'),
               pq := heappush (pq s) (t', sr, sc), rng := g4\<rparr>)"
          unfolding ember_spotting_def using True r1 u ev by simp
        show ?thesis
          by (rule that(3)[OF _ _ _ _ _ _ eq]) (use True lands ok4 in auto)
      next
        case False
        then have "ember_spotting m t r c n s = Inr (s\<lparr>rng := g4\<rparr>)"
          unfolding ember_spotting_def using True r1 u ev by auto
        with True ok4 that(2) show ?thesis by simp
      qed
    qed
  qed
qed

subsection \<open>The popped times never decrease\<close>

lemma event_le_fst: "(e::event) \<le> e' \<Longrightarrow> fst e \<le> fst e'"
  by (auto simp: less_eq_prod_def)

lemma relax_pq_lower:
  assumes "0 \<le> cell_size m" "d \<in> set neighbors" "\<forall>x\<in>set (pq s). t \<le> fst x"
  shows "\<forall>x\<in>set (pq (relax m t r c e d s)). t \<le> fst x"
proof -
  obtain dr dc dm where d: "d = (dr, dc, dm)" by (cases d) auto
  show ?thesis
    using relax_cases[of m t r c e dr dc dm s] assms(3)
      travel_time_nonneg[OF assms(1) _ assms(2), of "(r + dr, c + dc)" e]
    unfolding d by (auto simp: heappush_def)
qed

lemma settle_pq_lower:
  assumes "0 \<le> cell_size m" "\<forall>x\<in>set (pq s). t \<le> fst x"
  shows "\<forall>x\<in>set (pq (settle m t r c n s)). t \<le> fst x"
  unfolding settle_def
  by (rule fold_relax_invariant) (use assms in \<open>auto intro: relax_pq_lower[rule_format]\<close>)

lemma ember_pq_lower:
  assumes "uniform_ok (rng s)" "\<forall>x\<in>set (pq s). t \<le> fst x" "ember_spotting m t r c n s = Inr s'"
  shows "(\<forall>x\<in>set (pq s'). t \<le> fst x) \<and> uniform_ok (rng s')"
  by (cases rule: ember_spotting_outcomes[of m n t r c s])
     (use assms in \<open>auto simp: heappush_def\<close>)

lemma iteration_pq_lower:
  assumes ne: "pq s \<noteq> []" and it: "iteration m max_time s = Continue s'"
    and cs: "0 \<le> cell_size m" and ok: "uniform_ok (rng s)"
  shows "(\<forall>x\<in>set (pq s'). fst (fst (heappop (pq s))) \<le> fst x) \<and> uniform_ok (rng s')"
proof -
  obtain t r c pq' where hp: "heappop (pq s) = ((t, r, c), pq')"
    by (cases "heappop (pq s)") auto
  have pq': "pq' = remove1 (t, r, c) (pq s)" using heappop_rest[of "pq s"] hp by simp
  have low: "\<forall>x\<in>set pq'. t \<le> fst x"
  proof
    fix x assume "x \<in> set pq'"
    then have "x \<in> set (pq s)" unfolding pq' using set_remove1_subset by fast
    then have "(t, r, c) \<le> x" using heappop_le[OF ne] hp by simp
    then show "t \<le> fst x" using event_le_fst by fastforce
  qed
  from hp show ?thesis
  proof (cases rule: iteration_cases[where m = m and max_time = max_time])
    case break
    then show ?thesis using it by simp
  next
    case index
    then show ?thesis using it by simp
  next
    case (stale r' c')
    then show ?thesis using it low ok hp by auto
  next
    case (visit r' c')
    let ?s3 = "settle m t r c (r', c') (s\<lparr>pq := pq'\<rparr>)"
    from visit(5) it have em: "ember_spotting m t r c (r', c') ?s3 = Inr s'"
      by (auto split: sum.splits)
    have "\<forall>x\<in>set (pq ?s3). t \<le> fst x" using low by (intro settle_pq_lower[OF cs]) simp
    moreover have "uniform_ok (rng ?s3)" using ok by (simp add: settle_rng)
    ultimately show ?thesis using ember_pq_lower[OF _ _ em] hp by simp
  qed
qed

lemma pops_sorted_from:
  assumes "0 \<le> cell_size m" "uniform_ok (rng s)" "\<forall>x\<in>set (pq s). lb \<le> fst x"
  shows "sorted (lb # map fst (pop_sequence m max_time s))"
  using assms
proof (induction m max_time s arbitrary: lb rule: loop_heads.induct)
  case (1 m max_time s)
  show ?case
  proof (cases "pq s = []")
    case True
    then show ?thesis by (simp add: pop_sequence_unfold)
  next
    case False
    let ?e = "fst (heappop (pq s))"
    have lb: "lb \<le> fst ?e" using heappop_in[OF False] "1.prems"(3) by blast
    show ?thesis
    proof (cases "iteration m max_time s")
      case (Continue s')
      have "sorted (fst ?e # map fst (pop_sequence m max_time s'))"
        using iteration_pq_lower[OF False Continue "1.prems"(1,2)] "1.prems"(1)
        by (intro "1.IH"[OF False Continue]) auto
      then show ?thesis
        using lb False Continue by (subst pop_sequence_unfold) auto
    next
      case (Break s')
      then show ?thesis using lb False by (subst pop_sequence_unfold) simp
    next
      case (Raise e s')
      then show ?thesis using lb False by (subst pop_sequence_unfold) simp
    qed
  qed
qed

subsection \<open>Evaluating the examples\<close>

lemmas body_eval = iteration_def heappop_def np_index_def settle_def neighbors_def relax_def
  travel_time_def slope_factor_def wind_factor_def arctan2_def clip_def time_lt_def k_slope_def
  dict_get_def base_rates_def wind_sensitivity_def heappush_def ember_spotting_def spot_event_def
  spot_dist_px_def np_random_random_def np_random_randint_def np_random_normal_def py_int_def
  Let_def

lemma uniform_ok_examples: "uniform_ok g_spot" "uniform_ok g_calm"
  by (simp_all add: uniform_ok_def g_spot_def g_calm_def stream.pred_set)

lemma strip_sel:
  "elevation strip = (\<lambda>_. 0)" "fuel strip = (\<lambda>_. 2)" "rows strip = 4" "cols strip = 1"
  "cell_size strip = 30" "FireModel.ignition_time strip = (\<lambda>_. None)((0, 0) := Some 0)"
  "wind_speed strip = 10" "wind_dir strip = 0"
  by (simp_all add: strip_def FireModel_init_def ignite_def)

lemma start_strip:
  "start_state strip g =
     \<lparr>ignition_time = (\<lambda>_. None)((0, 0) := Some 0), pq = [(0, 0, 0)], visited = {}, rng = g\<rparr>"
  by (simp add: strip_sel start_state_def start_cells_def cells_def heappush_def upto.simps)

lemma strip_pops_spot:
  "pop_sequence strip 1000 (start_state strip g_spot) =
     [(0, 0, 0), (10, 3, 0), (30, 1, 0), (60, 2, 0), (610, 2, 0)]"
  by (simp add: start_strip g_spot_def strip_sel pop_sequence_unfold[of strip] body_eval)

text \<open>
  C7. In every run, with or without ember spotting, the times of the events popped from
  the queue never decrease. The cell size is not negative and the generator keeps its
  contract (uniform variates in \<open>[0, 1)\<close>).
\<close>

theorem pop_times_nondecreasing:
  assumes "0 \<le> cell_size m" and "uniform_ok g"
  shows "sorted (map fst (pop_sequence m max_time (start_state m g)))"
proof (cases "pq (start_state m g) = []")
  case True
  then show ?thesis by (simp add: pop_sequence_unfold)
next
  case False
  let ?s = "start_state m g"
  let ?lb = "fst (fst (heappop (pq ?s)))"
  have "\<forall>x\<in>set (pq ?s). ?lb \<le> fst x"
    using heappop_le[OF False] event_le_fst by blast
  moreover have "uniform_ok (rng ?s)" using assms(2) by (simp add: start_state_def)
  ultimately have "sorted (?lb # map fst (pop_sequence m max_time ?s))"
    using assms(1) by (intro pops_sorted_from)
  then show ?thesis by simp
qed

theorem pop_times_nondecreasing_witness:
  "0 \<le> cell_size strip \<and> uniform_ok g_spot
   \<and> map fst (pop_sequence strip 1000 (start_state strip g_spot)) = [0, 10, 30, 60, 610]
   \<and> sorted (map fst (pop_sequence strip 1000 (start_state strip g_spot)))"
  using pop_times_nondecreasing[of strip g_spot 1000]
  by (simp add: strip_sel uniform_ok_examples strip_pops_spot)

lemma loop_heads_nonempty: "s' \<in> set (loop_heads m max_time s) \<Longrightarrow> pq s' \<noteq> []"
proof (induction m max_time s rule: loop_heads.induct)
  case (1 m max_time s)
  show ?case
  proof (cases "pq s = []")
    case True
    then show ?thesis using "1.prems" by (simp add: loop_heads.simps[of m max_time s])
  next
    case False
    then show ?thesis using "1.prems" "1.IH"
      by (cases "iteration m max_time s") (auto simp: loop_heads.simps[of m max_time s])
  qed
qed

text \<open>
  C10. Whenever the run pops an event \<open>(t, r, c)\<close> while another event \<open>(t, r', c')\<close> with
  the same time is pending in the queue, the popped one comes first in row order, and
  for equal rows in column order.
\<close>

theorem equal_times_pop_in_row_col_order:
  assumes "s \<in> set (loop_heads m max_time (start_state m g))"
    and "fst (heappop (pq s)) = (t, r, c)" and "(t, r', c') \<in> set (pq s)"
  shows "r < r' \<or> (r = r' \<and> c \<le> c')"
proof -
  have "pq s \<noteq> []" using assms(1) by (rule loop_heads_nonempty)
  then have "(t, r, c) \<le> (t, r', c')" using heappop_le[OF _ assms(3)] assms(2) by simp
  then show ?thesis by (auto simp: less_eq_prod_def)
qed

lemma loop_heads_first: "pq s \<noteq> [] \<Longrightarrow> s \<in> set (loop_heads m max_time s)"
  by (simp add: loop_heads.simps[of m max_time s])

lemma two_seeds_sel:
  "elevation two_seeds = (\<lambda>_. 0)" "fuel two_seeds = (\<lambda>_. 1)" "rows two_seeds = 2"
  "cols two_seeds = 2" "cell_size two_seeds = 30"
  "FireModel.ignition_time two_seeds = (\<lambda>_. None)((0, 1) := Some 0, (1, 0) := Some 0)"
  "wind_speed two_seeds = 0" "wind_dir two_seeds = 0"
  by (simp_all add: two_seeds_def FireModel_init_def ignite_def)

lemma start_two_seeds:
  "start_state two_seeds g =
     \<lparr>ignition_time = (\<lambda>_. None)((0, 1) := Some 0, (1, 0) := Some 0),
      pq = [(0, 1, 0), (0, 0, 1)], visited = {}, rng = g\<rparr>"
  by (simp add: two_seeds_sel start_state_def start_cells_def cells_def heappush_def upto.simps)

theorem equal_times_pop_in_row_col_order_witness:
  "start_state two_seeds g_calm \<in> set (loop_heads two_seeds 1000 (start_state two_seeds g_calm))
   \<and> fst (heappop (pq (start_state two_seeds g_calm))) = (0, 0, 1)
   \<and> (0, 1, 0) \<in> set (pq (start_state two_seeds g_calm))
   \<and> ((0::int) < 1 \<or> ((0::int) = 1 \<and> (1::int) \<le> 0))"
  using equal_times_pop_in_row_col_order[of "start_state two_seeds g_calm" two_seeds 1000 g_calm 0 0 1 1 0]
    loop_heads_first[of "start_state two_seeds g_calm" two_seeds 1000]
  by (simp add: start_two_seeds heappop_def)

text \<open>
  C2, as the code has it. When the cell is inside the grid and its fuel is not Water,
  \<open>ignite\<close> stores the start time as the ignition time of the cell, whatever the cell
  held before, and changes nothing else; otherwise it changes nothing.
\<close>

theorem ignite_overwrites:
  "(0 \<le> r \<and> r < rows m \<and> 0 \<le> c \<and> c < cols m \<and> fuel m (r, c) \<noteq> 3 \<longrightarrow>
      ignite r c start_time m = m\<lparr>FireModel.ignition_time := (FireModel.ignition_time m)((r, c) := Some start_time)\<rparr>)
   \<and> (\<not> (0 \<le> r \<and> r < rows m \<and> 0 \<le> c \<and> c < cols m \<and> fuel m (r, c) \<noteq> 3) \<longrightarrow>
      ignite r c start_time m = m)"
  by (simp add: ignite_def)

lemma lit_cell_sel:
  "fuel lit_cell = (\<lambda>_. 1)" "rows lit_cell = 1" "cols lit_cell = 1"
  "FireModel.ignition_time lit_cell = (\<lambda>_. None)((0, 0) := Some 5)"
  by (simp_all add: lit_cell_def FireModel_init_def ignite_def)

lemma pond_sel:
  "fuel pond = (\<lambda>_. 3)" "rows pond = 1" "cols pond = 1"
  "FireModel.ignition_time pond = (\<lambda>_. None)"
  by (simp_all add: pond_def FireModel_init_def)

theorem ignite_overwrites_witness:
  "FireModel.ignition_time (ignite 0 0 10 lit_cell) (0, 0) = Some 10
   \<and> ignite 0 0 10 pond = pond \<and> ignite 0 1 10 lit_cell = lit_cell"
  using ignite_overwrites[of 0 lit_cell 0 10] ignite_overwrites[of 0 pond 0 10]
    ignite_overwrites[of 0 lit_cell 1 10]
  by (simp add: lit_cell_sel pond_sel)

text \<open>
  The claim C2 as stated fails: a cell lit at time 5 and lit again with start time 10
  holds 10 afterwards, not the minimum 5.
\<close>

theorem ignite_min_counterexample:
  "FireModel.ignition_time lit_cell (0, 0) = Some 5
   \<and> FireModel.ignition_time (ignite 0 0 10 lit_cell) (0, 0) = Some 10
   \<and> FireModel.ignition_time (ignite 0 0 10 lit_cell) (0, 0) \<noteq> Some (min 5 10)"
  by (simp add: ignite_def lit_cell_sel)

subsection \<open>The spotting distance\<close>

lemma py_int_half_wind: "6 \<le> w \<Longrightarrow> py_int (w * 0.5) = \<lfloor>w * 0.5\<rfloor> \<and> 3 \<le> \<lfloor>w * 0.5\<rfloor>"
  by (simp add: py_int_def le_floor_iff)

text \<open>
  C5, as the code has it. With a wind of at least 6 m/s, the spotting distance is the
  next uniform variate \<open>u\<close> of \<open>[0, 1)\<close> scaled onto the integers from 3 to
  \<open>floor(wind_speed * 0.5)\<close>: it is \<open>3 + floor(u * (floor(wind_speed * 0.5) - 2))\<close>, which
  lies between 3 and \<open>floor(wind_speed * 0.5)\<close> inclusive.
\<close>

theorem spot_distance_range:
  assumes "6 \<le> wind_speed m" and "uniform_ok g"
  shows "\<exists>k. spot_dist_px m g = Inr (k, g\<lparr>uniforms := stl (uniforms g)\<rparr>)
           \<and> k = 3 + \<lfloor>shd (uniforms g) * real_of_int (\<lfloor>wind_speed m * 0.5\<rfloor> - 2)\<rfloor>
           \<and> 3 \<le> k \<and> k \<le> \<lfloor>wind_speed m * 0.5\<rfloor>"
proof -
  let ?n = "\<lfloor>wind_speed m * 0.5\<rfloor>"
  have n: "py_int (wind_speed m * 0.5) = ?n" "3 \<le> ?n"
    using py_int_half_wind[OF assms(1)] by auto
  then obtain k0 g' where r: "np_random_randint 2 (py_int (wind_speed m * 0.5)) g = Inr (k0, g')"
    by (auto simp: np_random_randint_def)
  have range: "2 \<le> k0" "k0 < ?n" using np_random_randint_ok[OF r assms(2)] n by auto
  have k0: "k0 = 2 + \<lfloor>shd (uniforms g) * real_of_int (?n - 2)\<rfloor>"
    and g': "g' = g\<lparr>uniforms := stl (uniforms g)\<rparr>"
    using r n by (auto simp: np_random_randint_def split: if_splits)
  have "spot_dist_px m g = Inr (k0 + 1, g')" using r by (simp add: spot_dist_px_def)
  then show ?thesis using range k0 g' by auto
qed

theorem spot_distance_range_witness:
  "6 \<le> wind_speed strip \<and> uniform_ok g_calm
   \<and> spot_dist_px strip g_calm = Inr (4, g_calm\<lparr>uniforms := stl (uniforms g_calm)\<rparr>)
   \<and> (3::int) \<le> 4 \<and> 4 \<le> \<lfloor>wind_speed strip * 0.5\<rfloor>"
proof -
  have w: "6 \<le> wind_speed strip" by (simp add: strip_sel)
  have "spot_dist_px strip g_calm = Inr (4, g_calm\<lparr>uniforms := stl (uniforms g_calm)\<rparr>)"
    using spot_distance_range[OF w uniform_ok_examples(2)] by (simp add: strip_sel g_calm_def)
  then show ?thesis using w uniform_ok_examples(2) by (simp add: strip_sel)
qed

text \<open>
  The claim C5 as stated fails: under a wind of 10 m/s it gives the distances 2 to 6,
  but no state of the generator makes the distance 2 or 6.
\<close>

theorem spot_distance_counterexample:
  "\<not> (\<exists>g k g'. uniform_ok g \<and> spot_dist_px strip g = Inr (k, g') \<and> (k = 2 \<or> k = 6))"
proof
  assume "\<exists>g k g'. uniform_ok g \<and> spot_dist_px strip g = Inr (k, g') \<and> (k = 2 \<or> k = 6)"
  then obtain g k g' where ok: "uniform_ok g" and d: "spot_dist_px strip g = Inr (k, g')"
    and k: "k = 2 \<or> k = 6" by blast
  from d obtain k0 where r: "np_random_randint 2 5 g = Inr (k0, g')" and "k = k0 + 1"
    by (auto simp: spot_dist_px_def strip_sel py_int_def split: sum.splits)
  then show False using np_random_randint_ok[OF r ok] k by auto
qed

subsection \<open>A run that raises\<close>

lemma gusty_sel:
  "elevation gusty = (\<lambda>_. 0)" "fuel gusty = (\<lambda>_. 2)" "rows gusty = 1" "cols gusty = 1"
  "cell_size gusty = 30" "FireModel.ignition_time gusty = (\<lambda>_. None)((0, 0) := Some 0)"
  "wind_speed gusty = 11 / 2" "wind_dir gusty = 0"
  by (simp_all add: gusty_def FireModel_init_def ignite_def)

lemma start_gusty:
  "start_state gusty g =
     \<lparr>ignition_time = (\<lambda>_. None)((0, 0) := Some 0), pq = [(0, 0, 0)], visited = {}, rng = g\<rparr>"
  by (simp add: gusty_sel start_state_def start_cells_def cells_def heappush_def upto.simps)

text \<open>
  C4 fails on the code. The input is well formed (one Forest cell, cell size 30, wind
  speed 5.5), the cell is lit, and the first uniform variate is below 0.02: the run
  settles the cell, the ember is thrown, and \<^verbatim>\<open>np.random.randint(2, int(5.5 * 0.5))\<close>,
  that is \<^verbatim>\<open>randint(2, 2)\<close>, raises \<^verbatim>\<open>ValueError\<close>.
\<close>

theorem run_raises_value_error:
  "0 < cell_size gusty \<and> 0 \<le> wind_speed gusty \<and> uniform_ok g_spot
   \<and> raised (run_simulation gusty 1000 g_spot) = Some ValueError"
proof -
  have "raised (run_simulation gusty 1000 g_spot) = Some ValueError"
    by (simp add: run_simulation_def start_gusty raised_def g_spot_def gusty_sel
        run_loop.simps[of gusty] body_eval)
  then show ?thesis using uniform_ok_examples(1) by (simp add: gusty_sel)
qed

subsection \<open>The generator decides the field\<close>

lemma strip_run_spot:
  "ignition_time (final_state (run_simulation strip 1000 g_spot)) (3, 0) = Some 10"
  by (simp add: run_simulation_def start_strip final_state_def g_spot_def strip_sel
      run_loop.simps[of strip] body_eval)

lemma strip_run_calm:
  "ignition_time (final_state (run_simulation strip 1000 g_calm)) (3, 0) = Some 90"
  by (simp add: run_simulation_def start_strip final_state_def g_calm_def strip_sel
      run_loop.simps[of strip] body_eval)

text \<open>
  The claim C1 as stated fails: the generator is not handed to the object at
  construction. One and the same object, run with the global generator in two different
  states, gives two different ignition time fields: the last cell of the strip burns at
  time 10 (by an ember) in one run and at time 90 in the other.
\<close>

theorem generator_not_in_object_counterexample:
  "ignition_time (final_state (run_simulation strip 1000 g_spot)) (3, 0) = Some 10
   \<and> ignition_time (final_state (run_simulation strip 1000 g_calm)) (3, 0) = Some 90
   \<and> ignition_time (final_state (run_simulation strip 1000 g_spot))
       \<noteq> ignition_time (final_state (run_simulation strip 1000 g_calm))"
proof -
  have "ignition_time (final_state (run_simulation strip 1000 g_spot)) (3, 0)
        \<noteq> ignition_time (final_state (run_simulation strip 1000 g_calm)) (3, 0)"
    by (simp add: strip_run_spot strip_run_calm)
  then have "ignition_time (final_state (run_simulation strip 1000 g_spot))
       \<noteq> ignition_time (final_state (run_simulation strip 1000 g_calm))"
    by (rule contrapos_nn) (rule fun_cong)
  then show ?thesis using strip_run_spot strip_run_calm by (intro conjI)
qed

subsection \<open>Runs that throw no ember\<close>

lemma relax_with_rng: "relax m t r c e d (s\<lparr>rng := g\<rparr>) = (relax m t r c e d s)\<lparr>rng := g\<rparr>"
  by (cases d) (simp add: relax_def Let_def)

lemma settle_with_rng: "settle m t r c n (s\<lparr>rng := g\<rparr>) = (settle m t r c n s)\<lparr>rng := g\<rparr>"
proof -
  have F: "fold (relax m t r c e) ds (s\<lparr>rng := g\<rparr>) = (fold (relax m t r c e) ds s)\<lparr>rng := g\<rparr>"
    for e ds s
    by (induction ds arbitrary: s) (simp_all add: relax_with_rng)
  have eq: "(s\<lparr>rng := g\<rparr>)\<lparr>visited := insert n (visited (s\<lparr>rng := g\<rparr>))\<rparr>
      = (s\<lparr>visited := insert n (visited s)\<rparr>)\<lparr>rng := g\<rparr>" by simp
  show ?thesis unfolding settle_def eq by (rule F)
qed

lemma iteration_visited:
  "visited s \<subseteq> visited (outcome_state (iteration m max_time s))"
proof -
  obtain t r c pq' where hp: "heappop (pq s) = ((t, r, c), pq')"
    by (cases "heappop (pq s)") auto
  from hp show ?thesis
  proof (cases rule: iteration_cases[where m = m and max_time = max_time])
    case (visit r' c')
    have "visited (case ember_spotting m t r c (r', c') (settle m t r c (r', c') (s\<lparr>pq := pq'\<rparr>)) of
             Inl (e, s') \<Rightarrow> s' | Inr s' \<Rightarrow> s') = insert (r', c') (visited s)"
      by (simp add: ember_visited settle_visited)
    then show ?thesis unfolding visit(5) by (auto simp: outcome_state_def split: sum.splits)
  qed (simp_all add: outcome_state_def)
qed

lemma iteration_calm:
  assumes "wind_speed m \<le> 5 \<or> (\<forall>n\<in>visited (outcome_state (iteration m max_time s)). fuel m n \<noteq> 2)"
  shows "iteration m max_time (s\<lparr>rng := g\<rparr>) = outcome_with_rng g (iteration m max_time s)
         \<and> rng (outcome_state (iteration m max_time s)) = rng s"
proof -
  obtain t r c pq' where hp: "heappop (pq s) = ((t, r, c), pq')"
    by (cases "heappop (pq s)") auto
  from hp show ?thesis
  proof (cases rule: iteration_cases[where m = m and max_time = max_time])
    case break
    have "iteration m max_time (s\<lparr>rng := g\<rparr>) = Break (s\<lparr>rng := g, pq := pq'\<rparr>)"
      using break(1) by (simp add: iteration_def hp)
    then show ?thesis
      by (simp add: break(2) outcome_with_rng_def outcome_state_def)
  next
    case index
    have "iteration m max_time (s\<lparr>rng := g\<rparr>) = Raise IndexError (s\<lparr>rng := g, pq := pq'\<rparr>)"
      using index(1,2) by (auto simp: iteration_def hp Let_def split: option.splits)
    then show ?thesis
      by (simp add: index(3) outcome_with_rng_def outcome_state_def)
  next
    case (stale r' c')
    have "iteration m max_time (s\<lparr>rng := g\<rparr>) = Continue (s\<lparr>rng := g, pq := pq'\<rparr>)"
      using stale(1-4) by (simp add: iteration_def hp)
    then show ?thesis
      by (simp add: stale(5) outcome_with_rng_def outcome_state_def)
  next
    case (visit r' c')
    let ?s3 = "settle m t r c (r', c') (s\<lparr>pq := pq'\<rparr>)"
    have "(r', c') \<in> visited (outcome_state (iteration m max_time s))"
      unfolding visit(5) using ember_visited[of m t r c "(r', c')" ?s3]
      by (auto simp: outcome_state_def settle_visited split: sum.splits)
    then have idle: "\<not> (fuel m (r', c') = 2 \<and> wind_speed m > 5.0)" using assms by auto
    have 1: "iteration m max_time s = Continue ?s3"
      unfolding visit(5) by (simp add: ember_spotting_idle[OF idle])
    have "iteration m max_time (s\<lparr>rng := g\<rparr>) = Continue (settle m t r c (r', c') (s\<lparr>rng := g, pq := pq'\<rparr>))"
      using visit(1-4) by (simp add: iteration_def hp ember_spotting_idle[OF idle])
    also have "s\<lparr>rng := g, pq := pq'\<rparr> = (s\<lparr>pq := pq'\<rparr>)\<lparr>rng := g\<rparr>" by simp
    finally show ?thesis
      by (simp add: 1 settle_with_rng outcome_with_rng_def outcome_state_def settle_rng)
  qed
qed

lemma final_state_unfold:
  "pq s \<noteq> [] \<Longrightarrow> iteration m max_time s = Continue s' \<Longrightarrow>
     run_loop m max_time s = run_loop m max_time s'"
  by (simp add: run_loop.simps[of m max_time s])

lemma run_loop_visited: "visited s \<subseteq> visited (final_state (run_loop m max_time s))"
proof (rule run_loop_invariant[where I = "\<lambda>s'. visited s \<subseteq> visited s'"])
  fix s1 s2 assume "visited s \<subseteq> visited s1" "iteration m max_time s1 = Continue s2"
  then show "visited s \<subseteq> visited s2"
    using iteration_visited[of s1 m max_time] by (auto simp: outcome_state_def)
next
  fix s1 s2 assume "visited s \<subseteq> visited s1" "iteration m max_time s1 = Break s2"
  then show "visited s \<subseteq> visited s2"
    using iteration_visited[of s1 m max_time] by (auto simp: outcome_state_def)
next
  fix s1 s2 e assume "visited s \<subseteq> visited s1" "iteration m max_time s1 = Raise e s2"
  then show "visited s \<subseteq> visited s2"
    using iteration_visited[of s1 m max_time] by (auto simp: outcome_state_def)
qed simp_all

lemma run_loop_calm:
  assumes "wind_speed m \<le> 5 \<or> (\<forall>n\<in>visited (final_state (run_loop m max_time s)). fuel m n \<noteq> 2)"
  shows "run_loop m max_time (s\<lparr>rng := g\<rparr>) = result_with_rng g (run_loop m max_time s)
         \<and> rng (final_state (run_loop m max_time s)) = rng s"
  using assms
proof (induction m max_time s rule: run_loop.induct)
  case (1 m max_time s)
  show ?case
  proof (cases "pq s = []")
    case True
    then show ?thesis
      by (simp add: run_loop.simps[of m max_time s] run_loop.simps[of m max_time "s\<lparr>rng := g\<rparr>"]
          result_with_rng_def final_state_def)
  next
    case False
    have step: "wind_speed m \<le> 5
        \<or> (\<forall>n\<in>visited (outcome_state (iteration m max_time s)). fuel m n \<noteq> 2)"
    proof (cases "iteration m max_time s")
      case (Continue s')
      have "visited s' \<subseteq> visited (final_state (run_loop m max_time s))"
        using run_loop_visited[of s' m max_time] final_state_unfold[OF False Continue] by simp
      then show ?thesis using "1.prems" Continue by (auto simp: outcome_state_def)
    next
      case (Break s')
      then show ?thesis using "1.prems" False
        by (simp add: run_loop.simps[of m max_time s] final_state_def outcome_state_def)
    next
      case (Raise e s')
      then show ?thesis using "1.prems" False
        by (simp add: run_loop.simps[of m max_time s] final_state_def outcome_state_def)
    qed
    note it = iteration_calm[OF step, of g]
    show ?thesis
    proof (cases "iteration m max_time s")
      case (Continue s')
      have "wind_speed m \<le> 5 \<or> (\<forall>n\<in>visited (final_state (run_loop m max_time s')). fuel m n \<noteq> 2)"
        using "1.prems" final_state_unfold[OF False Continue] by simp
      from "1.IH"[OF False Continue this] it Continue False show ?thesis
        by (simp add: run_loop.simps[of m max_time s] run_loop.simps[of m max_time "s\<lparr>rng := g\<rparr>"]
            outcome_with_rng_def outcome_state_def)
    next
      case (Break s')
      with it False show ?thesis
        by (simp add: run_loop.simps[of m max_time s] run_loop.simps[of m max_time "s\<lparr>rng := g\<rparr>"]
            outcome_with_rng_def outcome_state_def result_with_rng_def final_state_def)
    next
      case (Raise e s')
      with it False show ?thesis
        by (simp add: run_loop.simps[of m max_time s] run_loop.simps[of m max_time "s\<lparr>rng := g\<rparr>"]
            outcome_with_rng_def outcome_state_def result_with_rng_def final_state_def)
    qed
  qed
qed

lemma start_state_with_rng: "start_state m g' = (start_state m g)\<lparr>rng := g'\<rparr>"
  by (simp add: start_state_def)

text \<open>
  C9. When the wind speed is at most 5, or more generally when the run settles no
  Forest cell, the run consumes no randomness: the generator is in the same state
  afterwards. The run then does not depend on the generator at all: started in any
  other state \<open>g'\<close> of the generator, it gives the same ignition time field and raises
  or returns alike.
\<close>

theorem calm_run_consumes_no_randomness:
  assumes "wind_speed m \<le> 5
           \<or> (\<forall>n\<in>visited (final_state (run_simulation m max_time g)). fuel m n \<noteq> 2)"
  shows "rng (final_state (run_simulation m max_time g)) = g
         \<and> ignition_time (final_state (run_simulation m max_time g'))
             = ignition_time (final_state (run_simulation m max_time g))
         \<and> raised (run_simulation m max_time g') = raised (run_simulation m max_time g)"
proof -
  note calm = run_loop_calm[OF assms[unfolded run_simulation_def], of g']
  have "run_simulation m max_time g' = result_with_rng g' (run_simulation m max_time g)"
    unfolding run_simulation_def start_state_with_rng[of m g' g] using calm by simp
  moreover have "rng (final_state (run_simulation m max_time g)) = g"
    unfolding run_simulation_def using calm by (simp add: start_state_def)
  ultimately show ?thesis
    by (simp add: result_with_rng_def final_state_def raised_def split: sum.splits)
qed

lemma meadow_sel:
  "elevation meadow = (\<lambda>_. 0)" "fuel meadow = (\<lambda>_. 1)" "rows meadow = 1" "cols meadow = 1"
  "cell_size meadow = 30" "FireModel.ignition_time meadow = (\<lambda>_. None)((0, 0) := Some 0)"
  "wind_speed meadow = 10" "wind_dir meadow = 0"
  by (simp_all add: meadow_def FireModel_init_def ignite_def)

lemma start_meadow:
  "start_state meadow g =
     \<lparr>ignition_time = (\<lambda>_. None)((0, 0) := Some 0), pq = [(0, 0, 0)], visited = {}, rng = g\<rparr>"
  by (simp add: meadow_sel start_state_def start_cells_def cells_def heappush_def upto.simps)

lemma meadow_run:
  "run_simulation meadow 1000 g =
     Inr \<lparr>ignition_time = (\<lambda>_. None)((0, 0) := Some 0), pq = [], visited = {(0, 0)}, rng = g\<rparr>"
  by (simp add: run_simulation_def start_meadow meadow_sel run_loop.simps[of meadow] body_eval)

theorem calm_run_consumes_no_randomness_witness:
  "wind_speed two_seeds \<le> 5
   \<and> rng (final_state (run_simulation two_seeds 1000 g_spot)) = g_spot
   \<and> ignition_time (final_state (run_simulation two_seeds 1000 g_calm))
       = ignition_time (final_state (run_simulation two_seeds 1000 g_spot))
   \<and> 5 < wind_speed meadow
   \<and> visited (final_state (run_simulation meadow 1000 g_spot)) = {(0, 0)}
   \<and> fuel meadow (0, 0) \<noteq> 2
   \<and> rng (final_state (run_simulation meadow 1000 g_spot)) = g_spot
   \<and> ignition_time (final_state (run_simulation meadow 1000 g_calm))
       = ignition_time (final_state (run_simulation meadow 1000 g_spot))"
proof -
  have a: "wind_speed two_seeds \<le> 5" by (simp add: two_seeds_sel)
  have v: "visited (final_state (run_simulation meadow 1000 g_spot)) = {(0, 0)}"
    by (simp add: meadow_run final_state_def)
  have f: "fuel meadow (0, 0) \<noteq> 2" by (simp add: meadow_sel)
  have b: "\<forall>n\<in>visited (final_state (run_simulation meadow 1000 g_spot)). fuel meadow n \<noteq> 2"
    unfolding v using f by simp
  have w: "5 < wind_speed meadow" by (simp add: meadow_sel)
  show ?thesis
    using calm_run_consumes_no_randomness[OF disjI1[OF a], of 1000 g_spot g_calm]
      calm_run_consumes_no_randomness[OF disjI2[OF b], of g_calm] a v f w
    by simp
qed

subsection \<open>Invariants of one visit\<close>

lemma run_loop_result_invariant:
  assumes "I s"
    and "\<And>s s'. I s \<Longrightarrow> pq s \<noteq> [] \<Longrightarrow> iteration m max_time s = Continue s' \<Longrightarrow> I s'"
    and "\<And>s s'. I s \<Longrightarrow> pq s \<noteq> [] \<Longrightarrow> iteration m max_time s = Break s' \<Longrightarrow> Q (Inr s')"
    and "\<And>s s' e. I s \<Longrightarrow> pq s \<noteq> [] \<Longrightarrow> iteration m max_time s = Raise e s' \<Longrightarrow> Q (Inl (e, s'))"
    and "\<And>s. I s \<Longrightarrow> pq s = [] \<Longrightarrow> Q (Inr s)"
  shows "Q (run_loop m max_time s)"
  using assms
proof (induction m max_time s rule: run_loop.induct)
  case (1 m max_time s)
  note inv = "1.prems"(1) and step = "1.prems"(2) and brk = "1.prems"(3)
    and rse = "1.prems"(4) and emp = "1.prems"(5)
  show ?case
  proof (cases "pq s = []")
    case True
    then show ?thesis using emp[OF inv] by (simp add: run_loop.simps)
  next
    case False
    show ?thesis
    proof (cases "iteration m max_time s")
      case (Continue s')
      have "Q (run_loop m max_time s')"
        using step[OF inv False Continue] step brk rse emp
        by (intro "1.IH"[OF False Continue]) blast+
      then show ?thesis
        using False Continue by (simp add: run_loop.simps[of m max_time s])
    next
      case (Break s')
      then show ?thesis using False brk[OF inv False Break]
        by (simp add: run_loop.simps[of m max_time s])
    next
      case (Raise e s')
      then show ?thesis using False rse[OF inv False Raise]
        by (simp add: run_loop.simps[of m max_time s])
    qed
  qed
qed

lemma np_index_in_grid: "0 \<le> i \<and> i < n \<Longrightarrow> np_index n i = Some i"
  by (simp add: np_index_def)

lemma settle_invariant:
  assumes init: "J (s\<lparr>visited := insert n (visited s)\<rparr>)"
    and edge: "\<And>s' dr dc dm.
        J s' \<Longrightarrow> visited s' = insert n (visited s) \<Longrightarrow> rng s' = rng s \<Longrightarrow>
        (dr, dc, dm) \<in> set neighbors \<Longrightarrow>
        0 \<le> r + dr \<and> r + dr < rows m \<and> 0 \<le> c + dc \<and> c + dc < cols m \<Longrightarrow>
        (r + dr, c + dc) \<notin> visited s' \<Longrightarrow> fuel m (r + dr, c + dc) \<noteq> 3 \<Longrightarrow>
        time_lt (t + travel_time m (elevation m n) (r + dr, c + dc) (dr, dc, dm))
                (ignition_time s' (r + dr, c + dc)) \<Longrightarrow>
        J (s'\<lparr>ignition_time := (ignition_time s')((r + dr, c + dc) :=
                 Some (t + travel_time m (elevation m n) (r + dr, c + dc) (dr, dc, dm))),
               pq := heappush (pq s')
                 (t + travel_time m (elevation m n) (r + dr, c + dc) (dr, dc, dm), r + dr, c + dc)\<rparr>)"
  shows "J (settle m t r c n s)"
proof -
  let ?P = "\<lambda>s'. J s' \<and> visited s' = insert n (visited s) \<and> rng s' = rng s"
  have "?P (fold (relax m t r c (elevation m n)) neighbors (s\<lparr>visited := insert n (visited s)\<rparr>))"
  proof (rule fold_relax_invariant)
    show "?P (s\<lparr>visited := insert n (visited s)\<rparr>)" using init by simp
  next
    fix d s' assume d: "d \<in> set neighbors" and P: "?P s'"
    obtain dr dc dm where dd: "d = (dr, dc, dm)" by (cases d) auto
    from relax_cases[of m t r c "elevation m n" dr dc dm s']
    show "?P (relax m t r c (elevation m n) d s')"
    proof
      assume "relax m t r c (elevation m n) (dr, dc, dm) s' = s'"
      then show ?thesis using P dd by simp
    next
      assume a: "0 \<le> r + dr \<and> r + dr < rows m \<and> 0 \<le> c + dc \<and> c + dc < cols m
        \<and> (r + dr, c + dc) \<notin> visited s' \<and> fuel m (r + dr, c + dc) \<noteq> 3
        \<and> time_lt (t + travel_time m (elevation m n) (r + dr, c + dc) (dr, dc, dm))
             (ignition_time s' (r + dr, c + dc))
        \<and> relax m t r c (elevation m n) (dr, dc, dm) s' =
            s'\<lparr>ignition_time := (ignition_time s')((r + dr, c + dc) :=
                  Some (t + travel_time m (elevation m n) (r + dr, c + dc) (dr, dc, dm))),
               pq := heappush (pq s')
                  (t + travel_time m (elevation m n) (r + dr, c + dc) (dr, dc, dm), r + dr, c + dc)\<rparr>"
      have "J (relax m t r c (elevation m n) (dr, dc, dm) s')"
        using edge[of s' dr dc dm] P d dd a by simp
      then show ?thesis using P a dd by simp
    qed
  qed
  then show ?thesis by (simp add: settle_def)
qed

lemma visit_invariant:
  assumes init: "J (s\<lparr>visited := insert n (visited s)\<rparr>)"
    and edge: "\<And>s' dr dc dm.
        J s' \<Longrightarrow> visited s' = insert n (visited s) \<Longrightarrow> rng s' = rng s \<Longrightarrow>
        (dr, dc, dm) \<in> set neighbors \<Longrightarrow>
        0 \<le> r + dr \<and> r + dr < rows m \<and> 0 \<le> c + dc \<and> c + dc < cols m \<Longrightarrow>
        (r + dr, c + dc) \<notin> visited s' \<Longrightarrow> fuel m (r + dr, c + dc) \<noteq> 3 \<Longrightarrow>
        time_lt (t + travel_time m (elevation m n) (r + dr, c + dc) (dr, dc, dm))
                (ignition_time s' (r + dr, c + dc)) \<Longrightarrow>
        J (s'\<lparr>ignition_time := (ignition_time s')((r + dr, c + dc) :=
                 Some (t + travel_time m (elevation m n) (r + dr, c + dc) (dr, dc, dm))),
               pq := heappush (pq s')
                 (t + travel_time m (elevation m n) (r + dr, c + dc) (dr, dc, dm), r + dr, c + dc)\<rparr>)"
    and drawJ: "\<And>s' g. J s' \<Longrightarrow> rng s' = rng s \<Longrightarrow> fuel m n = 2 \<Longrightarrow> wind_speed m > 5 \<Longrightarrow>
        (uniform_ok (rng s) \<longrightarrow> uniform_ok g) \<Longrightarrow> J (s'\<lparr>rng := g\<rparr>)"
    and spotJ: "\<And>s' g t' sr sc.
        J s' \<Longrightarrow> visited s' = insert n (visited s) \<Longrightarrow> rng s' = rng s \<Longrightarrow>
        fuel m n = 2 \<Longrightarrow> wind_speed m > 5 \<Longrightarrow>
        0 \<le> sr \<and> sr < rows m \<and> 0 \<le> sc \<and> sc < cols m \<Longrightarrow> fuel m (sr, sc) \<in> {1, 2} \<Longrightarrow>
        time_lt t' (ignition_time s' (sr, sc)) \<Longrightarrow>
        (uniform_ok (rng s) \<longrightarrow> t + 10 \<le> t' \<and> t' < t + 30 \<and> uniform_ok g) \<Longrightarrow>
        J (s'\<lparr>ignition_time := (ignition_time s')((sr, sc) := Some t'),
               pq := heappush (pq s') (t', sr, sc), rng := g\<rparr>)"
  shows "J (case ember_spotting m t r c n (settle m t r c n s) of
               Inl (e, s4) \<Rightarrow> s4 | Inr s4 \<Rightarrow> s4)"
proof -
  let ?s3 = "settle m t r c n s"
  have J3: "J ?s3" by (rule settle_invariant[OF init edge])
  have v3: "visited ?s3 = insert n (visited s)" by (rule settle_visited)
  have r3: "rng ?s3 = rng s" by (rule settle_rng)
  show ?thesis
  proof (cases rule: ember_spotting_outcomes[of m n t r c ?s3])
    case idle
    then show ?thesis using J3 by simp
  next
    case (miss g)
    then show ?thesis using drawJ[OF J3 r3, of g] r3 by simp
  next
    case (spot g t' sr sc)
    then show ?thesis using spotJ[OF J3 v3 r3, of sr sc t' g] r3 by simp
  next
    case (raise g)
    then show ?thesis using drawJ[OF J3 r3, of g] r3 by simp
  qed
qed

subsection \<open>A run with horizon 0\<close>

lemma iteration_cases_in_grid [consumes 2, case_names break stale visit]:
  assumes hp: "heappop (pq s) = ((t, r, c), pq')"
    and inb: "0 \<le> r \<and> r < rows m \<and> 0 \<le> c \<and> c < cols m"
  obtains
    "t > max_time" "iteration m max_time s = Break (s\<lparr>pq := pq'\<rparr>)"
  | "\<not> t > max_time" "(r, c) \<in> visited s" "iteration m max_time s = Continue (s\<lparr>pq := pq'\<rparr>)"
  | "\<not> t > max_time" "(r, c) \<notin> visited s"
      "iteration m max_time s =
         (case ember_spotting m t r c (r, c) (settle m t r c (r, c) (s\<lparr>pq := pq'\<rparr>)) of
            Inl (e, s4) \<Rightarrow> Raise e s4 | Inr s4 \<Rightarrow> Continue s4)"
proof -
  have ir: "np_index (rows m) r = Some r" and ic: "np_index (cols m) c = Some c"
    using inb by (simp_all add: np_index_in_grid)
  from hp show ?thesis
  proof (cases rule: iteration_cases[where m = m and max_time = max_time])
    case break
    then show ?thesis using that(1) by blast
  next
    case index
    then show ?thesis using ir ic by simp
  next
    case (stale r' c')
    then show ?thesis using ir ic that(2) by simp
  next
    case (visit r' c')
    then show ?thesis using ir ic that(3) by simp
  qed
qed

lemma ember_spotting_returns:
  assumes "wind_speed m \<le> 5 \<or> 6 \<le> wind_speed m"
  shows "\<exists>s'. ember_spotting m t r c n s = Inr s'"
proof (cases rule: ember_spotting_outcomes[of m n t r c s])
  case (raise g)
  then show ?thesis using assms py_int_half_wind[of "wind_speed m"] by auto
qed auto

lemma heappop_set:
  assumes "h \<noteq> []" "heappop h = (e, h')"
  shows "e \<in> set h" "set h' \<subseteq> set h" "set h \<subseteq> insert e (set h')" "\<forall>x\<in>set h. e \<le> x"
proof -
  have e: "e = fst (heappop h)" and h': "h' = remove1 e h"
    using assms(2) heappop_rest[of h] by auto
  show "e \<in> set h" unfolding e by (rule heappop_in[OF assms(1)])
  show "set h' \<subseteq> set h" unfolding h' by (rule set_remove1_subset)
  show "set h \<subseteq> insert e (set h')" unfolding h' using in_set_remove1[of _ e h] by blast
  show "\<forall>x\<in>set h. e \<le> x" unfolding e using heappop_le[OF assms(1)] by blast
qed

lemma horizon_invD:
  assumes "horizon_inv m Z s"
  shows "visited s \<subseteq> Z"
    and "\<And>n. n \<in> Z \<Longrightarrow> ignition_time s n = Some 0"
    and "\<And>n. n \<notin> Z \<Longrightarrow> ignition_time s n = None \<or> (\<exists>t>0. ignition_time s n = Some t)"
    and "\<And>t r c. (t, r, c) \<in> set (pq s) \<Longrightarrow>
           (0 \<le> r \<and> r < rows m \<and> 0 \<le> c \<and> c < cols m) \<and> (t = 0 \<and> (r, c) \<in> Z \<or> 0 < t)"
    and "\<And>r c. (r, c) \<in> Z \<Longrightarrow> (r, c) \<in> visited s \<or> (0, r, c) \<in> set (pq s)"
    and "uniform_ok (rng s)"
  using assms unfolding horizon_inv_def by blast+

lemma horizon_invI:
  assumes "visited s \<subseteq> Z"
    and "\<And>n. n \<in> Z \<Longrightarrow> ignition_time s n = Some 0"
    and "\<And>n. n \<notin> Z \<Longrightarrow> ignition_time s n = None \<or> (\<exists>t>0. ignition_time s n = Some t)"
    and "\<And>t r c. (t, r, c) \<in> set (pq s) \<Longrightarrow>
           (0 \<le> r \<and> r < rows m \<and> 0 \<le> c \<and> c < cols m) \<and> (t = 0 \<and> (r, c) \<in> Z \<or> 0 < t)"
    and "\<And>r c. (r, c) \<in> Z \<Longrightarrow> (r, c) \<in> visited s \<or> (0, r, c) \<in> set (pq s)"
    and "uniform_ok (rng s)"
  shows "horizon_inv m Z s"
  unfolding horizon_inv_def using assms by blast

lemma horizon_inv_pop:
  assumes inv: "horizon_inv m Z s" and sub: "set pq' \<subseteq> set (pq s)"
    and V: "visited s \<subseteq> V" "V \<subseteq> Z"
    and gone: "\<And>r c. (0, r, c) \<in> set (pq s) \<Longrightarrow> (0, r, c) \<notin> set pq' \<Longrightarrow> (r, c) \<in> V"
  shows "horizon_inv m Z (s\<lparr>pq := pq', visited := V\<rparr>)"
proof (rule horizon_invI)
  show "visited (s\<lparr>pq := pq', visited := V\<rparr>) \<subseteq> Z" using V by simp
  show "\<And>n. n \<in> Z \<Longrightarrow> ignition_time (s\<lparr>pq := pq', visited := V\<rparr>) n = Some 0"
    using horizon_invD(2)[OF inv] by simp
  show "\<And>n. n \<notin> Z \<Longrightarrow> ignition_time (s\<lparr>pq := pq', visited := V\<rparr>) n = None
           \<or> (\<exists>t>0. ignition_time (s\<lparr>pq := pq', visited := V\<rparr>) n = Some t)"
    using horizon_invD(3)[OF inv] by simp
  show "\<And>t r c. (t, r, c) \<in> set (pq (s\<lparr>pq := pq', visited := V\<rparr>)) \<Longrightarrow>
           (0 \<le> r \<and> r < rows m \<and> 0 \<le> c \<and> c < cols m) \<and> (t = 0 \<and> (r, c) \<in> Z \<or> 0 < t)"
    using horizon_invD(4)[OF inv] sub by auto
  show "\<And>r c. (r, c) \<in> Z \<Longrightarrow> (r, c) \<in> visited (s\<lparr>pq := pq', visited := V\<rparr>)
           \<or> (0, r, c) \<in> set (pq (s\<lparr>pq := pq', visited := V\<rparr>))"
    using horizon_invD(5)[OF inv] V(1) gone by simp blast
  show "uniform_ok (rng (s\<lparr>pq := pq', visited := V\<rparr>))" using horizon_invD(6)[OF inv] by simp
qed

lemma horizon_inv_push:
  assumes inv: "horizon_inv m Z s" and pos: "0 < t'"
    and nb: "0 \<le> r \<and> r < rows m \<and> 0 \<le> c \<and> c < cols m"
    and lt: "time_lt t' (ignition_time s (r, c))" and ok: "uniform_ok g"
  shows "horizon_inv m Z (s\<lparr>ignition_time := (ignition_time s)((r, c) := Some t'),
                            pq := heappush (pq s) (t', r, c), rng := g\<rparr>)"
    (is "horizon_inv m Z ?s'")
proof (rule horizon_invI)
  have nz: "(r, c) \<notin> Z"
    using horizon_invD(2)[OF inv, of "(r, c)"] lt pos by (auto simp: time_lt_def)
  show "visited ?s' \<subseteq> Z" using horizon_invD(1)[OF inv] by simp
  show "\<And>n. n \<in> Z \<Longrightarrow> ignition_time ?s' n = Some 0"
    using horizon_invD(2)[OF inv] nz by auto
  show "\<And>n. n \<notin> Z \<Longrightarrow> ignition_time ?s' n = None \<or> (\<exists>t>0. ignition_time ?s' n = Some t)"
    using horizon_invD(3)[OF inv] pos by auto
  show "\<And>t ra ca. (t, ra, ca) \<in> set (pq ?s') \<Longrightarrow>
           (0 \<le> ra \<and> ra < rows m \<and> 0 \<le> ca \<and> ca < cols m) \<and> (t = 0 \<and> (ra, ca) \<in> Z \<or> 0 < t)"
    using horizon_invD(4)[OF inv] pos nb by (auto simp: heappush_def)
  show "\<And>ra ca. (ra, ca) \<in> Z \<Longrightarrow> (ra, ca) \<in> visited ?s' \<or> (0, ra, ca) \<in> set (pq ?s')"
    using horizon_invD(5)[OF inv] by (auto simp: heappush_def)
  show "uniform_ok (rng ?s')" using ok by simp
qed

lemma horizon_inv_rng:
  assumes inv: "horizon_inv m Z s" and ok: "uniform_ok g"
  shows "horizon_inv m Z (s\<lparr>rng := g\<rparr>)"
  using inv ok unfolding horizon_inv_def by simp

lemma horizon_inv_step:
  assumes inv: "horizon_inv m Z s" and ne: "pq s \<noteq> []"
    and cs: "0 < cell_size m"
    and it: "iteration m 0 s = Continue s'"
  shows "horizon_inv m Z s'"
proof -
  obtain t r c pq' where hp: "heappop (pq s) = ((t, r, c), pq')"
    by (cases "heappop (pq s)") auto
  note hs = heappop_set[OF ne hp]
  have entry: "(0 \<le> r \<and> r < rows m \<and> 0 \<le> c \<and> c < cols m) \<and> (t = 0 \<and> (r, c) \<in> Z \<or> 0 < t)"
    using horizon_invD(4)[OF inv] hs(1) by blast
  then have inb: "0 \<le> r \<and> r < rows m \<and> 0 \<le> c \<and> c < cols m" by simp
  have gone: "(ra, ca) = (r, c)" if "(0, ra, ca) \<in> set (pq s)" "(0, ra, ca) \<notin> set pq'" for ra ca
    using that hs(3) by auto
  from hp inb show ?thesis
  proof (cases rule: iteration_cases_in_grid[where max_time = 0])
    case break
    then show ?thesis using it by simp
  next
    case stale
    have "s' = s\<lparr>pq := pq', visited := visited s\<rparr>" using stale it by simp
    moreover have "horizon_inv m Z (s\<lparr>pq := pq', visited := visited s\<rparr>)"
      using stale(2) gone horizon_invD(1)[OF inv]
      by (intro horizon_inv_pop[OF inv hs(2)]) auto
    ultimately show ?thesis by simp
  next
    case visit
    have tz: "t = 0" "(r, c) \<in> Z" using entry visit(1) by auto
    let ?J = "horizon_inv m Z"
    have s': "s' = (case ember_spotting m t r c (r, c) (settle m t r c (r, c) (s\<lparr>pq := pq'\<rparr>)) of
                     Inl (e, s4) \<Rightarrow> s4 | Inr s4 \<Rightarrow> s4)"
      using visit(3) it by (auto split: sum.splits)
    show ?thesis unfolding s'
    proof (rule visit_invariant)
      have "?J (s\<lparr>pq := pq', visited := insert (r, c) (visited s)\<rparr>)"
        using tz(2) gone horizon_invD(1)[OF inv]
        by (intro horizon_inv_pop[OF inv hs(2)]) auto
      then show "?J (s\<lparr>pq := pq', visited := insert (r, c) (visited (s\<lparr>pq := pq'\<rparr>))\<rparr>)"
        by simp
    next
      fix s1 dr dc dm
      assume J: "?J s1" and d: "(dr, dc, dm) \<in> set neighbors"
        and nb: "0 \<le> r + dr \<and> r + dr < rows m \<and> 0 \<le> c + dc \<and> c + dc < cols m"
        and w: "fuel m (r + dr, c + dc) \<noteq> 3"
        and lt: "time_lt (t + travel_time m (elevation m (r, c)) (r + dr, c + dc) (dr, dc, dm))
                   (ignition_time s1 (r + dr, c + dc))"
      let ?t' = "t + travel_time m (elevation m (r, c)) (r + dr, c + dc) (dr, dc, dm)"
      have pos: "0 < ?t'" using travel_time_pos[OF cs w d] tz by simp
      from horizon_inv_push[OF J pos nb lt horizon_invD(6)[OF J]]
      show "?J (s1\<lparr>ignition_time := (ignition_time s1)((r + dr, c + dc) := Some ?t'),
                   pq := heappush (pq s1) (?t', r + dr, c + dc)\<rparr>)"
        by simp
    next
      fix s1 g assume "?J s1" "rng s1 = rng (s\<lparr>pq := pq'\<rparr>)"
        "uniform_ok (rng (s\<lparr>pq := pq'\<rparr>)) \<longrightarrow> uniform_ok g"
      then show "?J (s1\<lparr>rng := g\<rparr>)"
        using horizon_invD(6)[OF inv] by (intro horizon_inv_rng) auto
    next
      fix s1 g t' sr sc
      assume J: "?J s1" and r1: "rng s1 = rng (s\<lparr>pq := pq'\<rparr>)"
        and nb: "0 \<le> sr \<and> sr < rows m \<and> 0 \<le> sc \<and> sc < cols m"
        and lt: "time_lt t' (ignition_time s1 (sr, sc))"
        and ok: "uniform_ok (rng (s\<lparr>pq := pq'\<rparr>)) \<longrightarrow> t + 10 \<le> t' \<and> t' < t + 30 \<and> uniform_ok g"
      have okg: "0 < t'" "uniform_ok g" using ok horizon_invD(6)[OF inv] tz by auto
      show "?J (s1\<lparr>ignition_time := (ignition_time s1)((sr, sc) := Some t'),
                   pq := heappush (pq s1) (t', sr, sc), rng := g\<rparr>)"
        by (rule horizon_inv_push[OF J okg(1) nb lt okg(2)])
    qed
  qed
qed

lemma fold_heappush_set:
  "set (fold (\<lambda>(r, c) h. heappush h (f r c, r, c)) xs h0)
     = set h0 \<union> (\<lambda>(r, c). (f r c, r, c)) ` set xs"
  by (induction xs arbitrary: h0) (auto simp: heappush_def)

lemma start_queue_set:
  "set (pq (start_state m g))
     = (\<lambda>(r, c). (the (FireModel.ignition_time m (r, c)), r, c)) ` set (start_cells m)"
  by (simp add: start_state_def fold_heappush_set)

lemma start_state_sel:
  "ignition_time (start_state m g) = FireModel.ignition_time m"
  "visited (start_state m g) = {}" "rng (start_state m g) = g"
  by (simp_all add: start_state_def)

lemma horizon_inv_start:
  assumes seeds: "\<And>n. FireModel.ignition_time m n \<noteq> None \<Longrightarrow>
                    n \<in> set (cells m) \<and> FireModel.ignition_time m n = Some 0"
    and ok: "uniform_ok g"
  shows "horizon_inv m {n. FireModel.ignition_time m n = Some 0} (start_state m g)"
proof (rule horizon_invI)
  let ?s = "start_state m g" and ?Z = "{n. FireModel.ignition_time m n = Some 0}"
  show "visited ?s \<subseteq> ?Z" by (simp add: start_state_sel)
  show "\<And>n. n \<in> ?Z \<Longrightarrow> ignition_time ?s n = Some 0" by (simp add: start_state_sel)
  show "\<And>n. n \<notin> ?Z \<Longrightarrow> ignition_time ?s n = None \<or> (\<exists>t>0. ignition_time ?s n = Some t)"
  proof -
    fix n assume "n \<notin> ?Z"
    then have "FireModel.ignition_time m n = None" using seeds[of n] by (cases "FireModel.ignition_time m n") auto
    then show "ignition_time ?s n = None \<or> (\<exists>t>0. ignition_time ?s n = Some t)"
      by (simp add: start_state_sel)
  qed
  show "\<And>t r c. (t, r, c) \<in> set (pq ?s) \<Longrightarrow>
          (0 \<le> r \<and> r < rows m \<and> 0 \<le> c \<and> c < cols m) \<and> (t = 0 \<and> (r, c) \<in> ?Z \<or> 0 < t)"
  proof -
    fix t r c assume "(t, r, c) \<in> set (pq ?s)"
    then have "(r, c) \<in> set (start_cells m)" and t: "t = the (FireModel.ignition_time m (r, c))"
      unfolding start_queue_set by auto
    then have "FireModel.ignition_time m (r, c) \<noteq> None" by (simp add: start_cells_def)
    from seeds[OF this] t
    show "(0 \<le> r \<and> r < rows m \<and> 0 \<le> c \<and> c < cols m) \<and> (t = 0 \<and> (r, c) \<in> ?Z \<or> 0 < t)"
      by (simp add: set_cells)
  qed
  show "\<And>r c. (r, c) \<in> ?Z \<Longrightarrow> (r, c) \<in> visited ?s \<or> (0, r, c) \<in> set (pq ?s)"
  proof -
    fix r c assume z: "(r, c) \<in> ?Z"
    then have "(r, c) \<in> set (start_cells m)" using seeds[of "(r, c)"] by (simp add: start_cells_def)
    then have "(the (FireModel.ignition_time m (r, c)), r, c) \<in> set (pq ?s)"
      unfolding start_queue_set by force
    then show "(r, c) \<in> visited ?s \<or> (0, r, c) \<in> set (pq ?s)" using z by simp
  qed
  show "uniform_ok (rng ?s)" using ok by (simp add: start_state_sel)
qed

lemma horizon_run:
  assumes inv: "horizon_inv m Z s" and cs: "0 < cell_size m"
    and wind: "wind_speed m \<le> 5 \<or> 6 \<le> wind_speed m"
  shows "\<exists>s'. run_loop m 0 s = Inr s' \<and> visited s' = Z
           \<and> (\<forall>n\<in>Z. ignition_time s' n = Some 0)
           \<and> (\<forall>n. n \<notin> Z \<longrightarrow> ignition_time s' n = None \<or> (\<exists>t>0. ignition_time s' n = Some t))"
    (is "?Q (run_loop m 0 s)")
proof (rule run_loop_result_invariant[where I = "horizon_inv m Z" and Q = ?Q])
  show "horizon_inv m Z s" by (rule inv)
next
  fix s1 s2 assume "horizon_inv m Z s1" "pq s1 \<noteq> []" "iteration m 0 s1 = Continue s2"
  then show "horizon_inv m Z s2" using cs by (intro horizon_inv_step[of m Z s1 s2])
next
  fix s1 assume J: "horizon_inv m Z s1" and emp: "pq s1 = []"
  have "visited s1 = Z" using horizon_invD(1,5)[OF J] emp by auto
  then show "?Q (Inr s1)" using horizon_invD(2,3)[OF J] by simp
next
  fix s1 s2 assume J: "horizon_inv m Z s1" and ne: "pq s1 \<noteq> []"
    and it: "iteration m 0 s1 = Break s2"
  obtain t r c pq' where hp: "heappop (pq s1) = ((t, r, c), pq')"
    by (cases "heappop (pq s1)") auto
  note hs = heappop_set[OF ne hp]
  have inb: "0 \<le> r \<and> r < rows m \<and> 0 \<le> c \<and> c < cols m"
    using horizon_invD(4)[OF J] hs(1) by blast
  from hp inb have t: "0 < t" and s2: "s2 = s1\<lparr>pq := pq'\<rparr>"
    by (cases rule: iteration_cases_in_grid[where max_time = 0 and m = m];
        use it in \<open>auto split: sum.splits\<close>)+
  have "(0, ra, ca) \<notin> set (pq s1)" for ra ca
  proof
    assume "(0, ra, ca) \<in> set (pq s1)"
    then have "(t, r, c) \<le> (0, ra, ca)" using hs(4) by blast
    then show False using t event_le_fst by fastforce
  qed
  then have "visited s1 = Z" using horizon_invD(1,5)[OF J] by auto
  then show "?Q (Inr s2)" using horizon_invD(2,3)[OF J] s2 by simp
next
  fix s1 s2 e assume J: "horizon_inv m Z s1" and ne: "pq s1 \<noteq> []"
    and it: "iteration m 0 s1 = Raise e s2"
  obtain t r c pq' where hp: "heappop (pq s1) = ((t, r, c), pq')"
    by (cases "heappop (pq s1)") auto
  note hs = heappop_set[OF ne hp]
  have inb: "0 \<le> r \<and> r < rows m \<and> 0 \<le> c \<and> c < cols m"
    using horizon_invD(4)[OF J] hs(1) by blast
  from hp inb have False
  proof (cases rule: iteration_cases_in_grid[where max_time = 0 and m = m])
    case visit
    then show ?thesis
      using it ember_spotting_returns[OF wind, of t r c "(r, c)" "settle m t r c (r, c) (s1\<lparr>pq := pq'\<rparr>)"]
      by auto
  qed (use it in auto)
  then show "?Q (Inl (e, s2))" ..
qed

lemma ignite_sel:
  "rows (ignite r c t m) = rows m" "cols (ignite r c t m) = cols m"
  "fuel (ignite r c t m) = fuel m" "elevation (ignite r c t m) = elevation m"
  "cell_size (ignite r c t m) = cell_size m" "wind_speed (ignite r c t m) = wind_speed m"
  "wind_dir (ignite r c t m) = wind_dir m" "cells (ignite r c t m) = cells m"
  by (simp_all add: ignite_def cells_def)

lemma ignite_time:
  "FireModel.ignition_time (ignite r c t m) =
     (\<lambda>n. if n = (r, c) \<and> n \<in> set (cells m) \<and> fuel m n \<noteq> 3 then Some t
          else FireModel.ignition_time m n)"
  by (auto simp: ignite_def set_cells)

lemma ignites_sel:
  "rows (fold (\<lambda>(r, c, t). ignite r c t) igs m) = rows m \<and>
   cols (fold (\<lambda>(r, c, t). ignite r c t) igs m) = cols m \<and>
   fuel (fold (\<lambda>(r, c, t). ignite r c t) igs m) = fuel m \<and>
   elevation (fold (\<lambda>(r, c, t). ignite r c t) igs m) = elevation m \<and>
   cell_size (fold (\<lambda>(r, c, t). ignite r c t) igs m) = cell_size m \<and>
   wind_speed (fold (\<lambda>(r, c, t). ignite r c t) igs m) = wind_speed m \<and>
   wind_dir (fold (\<lambda>(r, c, t). ignite r c t) igs m) = wind_dir m \<and>
   cells (fold (\<lambda>(r, c, t). ignite r c t) igs m) = cells m"
  by (induction igs arbitrary: m) (auto simp: ignite_sel)

lemma ignites_time_zero:
  assumes "\<forall>(r, c, t)\<in>set igs. t = 0"
  shows "FireModel.ignition_time (fold (\<lambda>(r, c, t). ignite r c t) igs m) n =
           (if (fst n, snd n, 0) \<in> set igs \<and> n \<in> set (cells m) \<and> fuel m n \<noteq> 3 then Some 0
            else FireModel.ignition_time m n)"
  using assms
proof (induction igs arbitrary: m)
  case Nil
  then show ?case by simp
next
  case (Cons i igs)
  obtain r c where i: "i = (r, c, 0)" using Cons.prems by (cases i) auto
  have rest: "\<forall>(r, c, t)\<in>set igs. t = 0" using Cons.prems by simp
  show ?case
    using Cons.IH[OF rest, of "ignite r c 0 m"]
    by (cases n) (auto simp: i ignite_sel ignite_time)
qed

text \<open>
  C3, as the code has it. A fresh object is seeded by calls of \<open>ignite\<close> with start time
  0 and run with \<open>max_time = 0\<close> (positive cell size, generator within its contract, wind
  speed outside \<open>(5, 6)\<close>). The run returns. It has settled exactly the seeded cells (the
  cells of the grid that are not Water and were named in a call), and these hold time 0.
  Every other cell is unsettled and holds \<^verbatim>\<open>np.inf\<close> or a positive time: the candidate
  time that a settled neighbour or an ember has written.
\<close>

theorem horizon_zero_settles_seeds:
  assumes "m = fold (\<lambda>(r, c, t). ignite r c t) ignitions
                 (FireModel_init shape elevation_map fuel_map speed dir csize)"
    and "\<forall>(r, c, t)\<in>set ignitions. t = 0"
    and "0 < csize" and "uniform_ok g" and "speed \<le> 5 \<or> 6 \<le> speed"
  shows "\<exists>s. run_simulation m 0 g = Inr s
           \<and> visited s = {(r, c). (r, c, 0) \<in> set ignitions \<and> (r, c) \<in> set (cells m)
                                  \<and> fuel_map (r, c) \<noteq> 3}
           \<and> (\<forall>n\<in>visited s. ignition_time s n = Some 0)
           \<and> (\<forall>n. n \<notin> visited s \<longrightarrow>
                  ignition_time s n = None \<or> (\<exists>t>0. ignition_time s n = Some t))"
proof -
  let ?m0 = "FireModel_init shape elevation_map fuel_map speed dir csize"
  let ?Z = "{n. FireModel.ignition_time m n = Some 0}"
  note sel = ignites_sel[of ignitions ?m0, folded assms(1)]
  have time: "FireModel.ignition_time m n =
      (if (fst n, snd n, 0) \<in> set ignitions \<and> n \<in> set (cells m) \<and> fuel_map n \<noteq> 3 then Some 0
       else None)" for n
    unfolding assms(1) ignites_time_zero[OF assms(2)]
    using sel by (simp add: assms(1) FireModel_init_def)
  have Z: "?Z = {(r, c). (r, c, 0) \<in> set ignitions \<and> (r, c) \<in> set (cells m) \<and> fuel_map (r, c) \<noteq> 3}"
    by (auto simp: time)
  have seeds: "\<And>n. FireModel.ignition_time m n \<noteq> None \<Longrightarrow>
                 n \<in> set (cells m) \<and> FireModel.ignition_time m n = Some 0"
    by (simp add: time split: if_splits)
  have cs: "0 < cell_size m" using sel assms(3) by (simp add: FireModel_init_def)
  have wind: "wind_speed m \<le> 5 \<or> 6 \<le> wind_speed m"
    using sel assms(5) by (simp add: FireModel_init_def)
  from horizon_run[OF horizon_inv_start[OF seeds assms(4)] cs wind]
  obtain s where "run_loop m 0 (start_state m g) = Inr s" "visited s = ?Z"
    "\<forall>n\<in>?Z. ignition_time s n = Some 0"
    "\<forall>n. n \<notin> ?Z \<longrightarrow> ignition_time s n = None \<or> (\<exists>t>0. ignition_time s n = Some t)"
    by blast
  then show ?thesis unfolding run_simulation_def Z[symmetric] by blast
qed

lemma strip_run_horizon:
  "run_simulation strip 0 g_calm =
     Inr \<lparr>ignition_time = (\<lambda>_. None)((0, 0) := Some 0, (1, 0) := Some 30), pq = [],
          visited = {(0, 0)}, rng = g_calm\<lparr>uniforms := stl (uniforms g_calm)\<rparr>\<rparr>"
  by (simp add: run_simulation_def start_strip g_calm_def strip_sel run_loop.simps[of strip] body_eval)

theorem horizon_zero_settles_seeds_witness:
  "strip = fold (\<lambda>(r, c, t). ignite r c t) [(0, 0, 0)] (FireModel_init (4, 1) (\<lambda>_. 0) (\<lambda>_. 2) 10 0 30)
   \<and> 0 < (30::real) \<and> uniform_ok g_calm \<and> ((10::real) \<le> 5 \<or> (6::real) \<le> 10)
   \<and> (\<exists>s. run_simulation strip 0 g_calm = Inr s
           \<and> visited s = {(r, c). (r, c, 0) \<in> set [(0, 0, 0::real)] \<and> (r, c) \<in> set (cells strip)
                                  \<and> (2::int) \<noteq> 3}
           \<and> visited s = {(0, 0)}
           \<and> ignition_time s (0, 0) = Some 0 \<and> ignition_time s (1, 0) = Some 30
           \<and> ignition_time s (2, 0) = None)"
proof -
  have m: "strip = fold (\<lambda>(r, c, t). ignite r c t) [(0, 0, 0)]
                     (FireModel_init (4, 1) (\<lambda>_. 0) (\<lambda>_. 2) 10 0 30)"
    by (simp add: strip_def)
  have z: "\<forall>(r, c, t)\<in>set [(0::int, 0::int, 0::real)]. t = 0" by simp
  have w: "(10::real) \<le> 5 \<or> (6::real) \<le> 10" by simp
  from horizon_zero_settles_seeds[OF m z _ uniform_ok_examples(2) w]
  have "\<exists>s. run_simulation strip 0 g_calm = Inr s
           \<and> visited s = {(r, c). (r, c, 0) \<in> set [(0, 0, 0::real)] \<and> (r, c) \<in> set (cells strip)
                                  \<and> (2::int) \<noteq> 3}"
    by auto
  then show ?thesis using m uniform_ok_examples(2) by (auto simp: strip_run_horizon)
qed

text \<open>
  The claim C3 as stated fails: with \<open>max_time = 0\<close> the run still relaxes the neighbours
  of the seed it settles. On the strip, the cell below the seed was never seeded and
  holds time 30 in the returned field, not \<^verbatim>\<open>np.inf\<close>.
\<close>

theorem horizon_zero_counterexample:
  "FireModel.ignition_time strip (1, 0) = None
   \<and> raised (run_simulation strip 0 g_calm) = None
   \<and> ignition_time (final_state (run_simulation strip 0 g_calm)) (1, 0) = Some 30"
  by (simp add: strip_run_horizon strip_sel raised_def final_state_def)

subsection \<open>The isotropic baseline\<close>

lemma flat5_sel:
  "elevation flat5 = (\<lambda>_. 0)" "fuel flat5 = (\<lambda>_. 2)" "rows flat5 = 5" "cols flat5 = 5"
  "cell_size flat5 = 30" "FireModel.ignition_time flat5 = (\<lambda>_. None)((2, 2) := Some 0)"
  "wind_speed flat5 = 0" "wind_dir flat5 = 0"
  by (simp_all add: flat5_def FireModel_init_def ignite_def)

lemma start_flat5:
  "start_state flat5 g =
     \<lparr>ignition_time = (\<lambda>_. None)((2, 2) := Some 0), pq = [(0, 2, 2)], visited = {}, rng = g\<rparr>"
  by (simp add: flat5_sel start_state_def start_cells_def cells_def heappush_def upto.simps)

lemma flat5_travel_time:
  "0 < dm \<Longrightarrow> travel_time flat5 0 n (dr, dc, dm) = 60 * dm"
  by (simp add: travel_time_def slope_factor_def wind_factor_def flat5_sel arctan2_def clip_def
      dict_get_def base_rates_def)

lemma flat5_relax:
  "0 < dm \<Longrightarrow> relax flat5 t r c 0 (dr, dc, dm) s =
     (if 0 \<le> r + dr \<and> r + dr < 5 \<and> 0 \<le> c + dc \<and> c + dc < 5 \<and> (r + dr, c + dc) \<notin> visited s
         \<and> time_lt (t + 60 * dm) (ignition_time s (r + dr, c + dc))
      then s\<lparr>ignition_time := (ignition_time s)((r + dr, c + dc) := Some (t + 60 * dm)),
             pq := (t + 60 * dm, r + dr, c + dc) # pq s\<rparr>
      else s)"
  by (simp add: relax_def flat5_travel_time flat5_sel heappush_def Let_def)

lemma flat5_ember: "ember_spotting flat5 t r c n s = Inr s"
  by (rule ember_spotting_idle) (simp add: flat5_sel)

lemma flat5_iteration:
  "iteration flat5 1000 s =
     (case heappop (pq s) of ((t, r, c), pq') \<Rightarrow>
        if t > 1000 then Break (s\<lparr>pq := pq'\<rparr>)
        else if 0 \<le> r \<and> r < 5 \<and> 0 \<le> c \<and> c < 5 then
          (if (r, c) \<in> visited s then Continue (s\<lparr>pq := pq'\<rparr>)
           else Continue (fold (relax flat5 t r c 0) neighbors
                            (s\<lparr>pq := pq', visited := insert (r, c) (visited s)\<rparr>)))
        else iteration flat5 1000 s)"
proof -
  obtain t r c pq' where hp: "heappop (pq s) = ((t, r, c), pq')"
    by (cases "heappop (pq s)") auto
  show ?thesis
  proof (cases "0 \<le> r \<and> r < 5 \<and> 0 \<le> c \<and> c < 5")
    case True
    then show ?thesis
      by (simp add: hp iteration_def flat5_sel np_index_in_grid settle_def flat5_ember)
  next
    case False
    then have g: "(0 \<le> r \<and> r < 5 \<and> 0 \<le> c \<and> c < 5) = False" by simp
    show ?thesis
      unfolding hp prod.case g if_False
      by (cases "t > 1000") (simp_all add: iteration_def hp)
  qed
qed

lemma flat5_settled:
  "\<exists>s. run_simulation flat5 1000 g = Inr s
     \<and> {(1, 2), (3, 2), (2, 1), (2, 3), (1, 1), (1, 3), (3, 1), (3, 3)} \<subseteq> visited s
     \<and> ignition_time s (1, 2) = Some 60 \<and> ignition_time s (3, 2) = Some 60
     \<and> ignition_time s (2, 1) = Some 60 \<and> ignition_time s (2, 3) = Some 60
     \<and> ignition_time s (1, 1) = Some (2121 / 25) \<and> ignition_time s (1, 3) = Some (2121 / 25)
     \<and> ignition_time s (3, 1) = Some (2121 / 25) \<and> ignition_time s (3, 3) = Some (2121 / 25)"
  by (simp add: run_simulation_def start_flat5 run_loop.simps[of flat5]
      flat5_iteration heappop_def neighbors_def flat5_relax time_lt_def)

text \<open>
  C6, as the code has it. On the flat five by five Forest grid with cell size 30 and no
  wind, lit at \<open>(2, 2)\<close> at time 0, \<open>run_simulation\<close> with its default horizon 1000
  returns, whatever the state of the generator; it settles the four orthogonal
  neighbours of the seed at time \<open>30 / 0.5 = 60\<close> and the four diagonal neighbours at time
  \<open>30 * 1.414 / 0.5 = 84.84\<close>: the diagonal distance factor of the code is the constant
  1.414.
\<close>

theorem isotropic_baseline:
  "\<exists>s. run_simulation flat5 1000 g = Inr s
     \<and> {(1, 2), (3, 2), (2, 1), (2, 3), (1, 1), (1, 3), (3, 1), (3, 3)} \<subseteq> visited s
     \<and> ignition_time s (1, 2) = Some (30 / 0.5) \<and> ignition_time s (3, 2) = Some (30 / 0.5)
     \<and> ignition_time s (2, 1) = Some (30 / 0.5) \<and> ignition_time s (2, 3) = Some (30 / 0.5)
     \<and> ignition_time s (1, 1) = Some (30 * 1.414 / 0.5)
     \<and> ignition_time s (1, 3) = Some (30 * 1.414 / 0.5)
     \<and> ignition_time s (3, 1) = Some (30 * 1.414 / 0.5)
     \<and> ignition_time s (3, 3) = Some (30 * 1.414 / 0.5)"
  using flat5_settled[of g] by simp

theorem isotropic_baseline_witness:
  "\<exists>s. run_simulation flat5 1000 g_calm = Inr s
     \<and> {(1, 2), (3, 2), (2, 1), (2, 3), (1, 1), (1, 3), (3, 1), (3, 3)} \<subseteq> visited s
     \<and> ignition_time s (1, 2) = Some 60 \<and> ignition_time s (1, 1) = Some (8484 / 100)"
  using isotropic_baseline[of g_calm] by auto

text \<open>
  The claim C6 as stated fails for the diagonal neighbours: the run settles \<open>(1, 1)\<close> at
  84.84, which is not \<open>30 * sqrt 2 / 0.5\<close>.
\<close>

theorem isotropic_diagonal_counterexample:
  "ignition_time (final_state (run_simulation flat5 1000 g_calm)) (1, 1) = Some (8484 / 100)
   \<and> ignition_time (final_state (run_simulation flat5 1000 g_calm)) (1, 1)
       \<noteq> Some (30 * sqrt 2 / 0.5)"
proof -
  have t: "ignition_time (final_state (run_simulation flat5 1000 g_calm)) (1, 1) = Some (2121 / 25)"
    using flat5_settled[of g_calm] by (auto simp: final_state_def)
  have "sqrt 2 * sqrt 2 = 2" by simp
  moreover have "(1414 / 1000) * (1414 / 1000) \<noteq> (2::real)" by simp
  ultimately have "sqrt 2 \<noteq> 1414 / 1000" by metis
  then have "(2121 / 25 :: real) \<noteq> 30 * sqrt 2 / 0.5" by simp
  then show ?thesis using t by simp
qed

subsection \<open>Where finite times can appear\<close>

lemma adjacent8_neighbors:
  "(dr, dc, dm) \<in> set neighbors \<Longrightarrow> adjacent8 (r, c) (r + dr, c + dc)"
  by (auto simp: neighbors_def adjacent8_def)

lemma adjacent8_cases:
  assumes "adjacent8 (r, c) n'"
  obtains dr dc dm where "(dr, dc, dm) \<in> set neighbors" "n' = (r + dr, c + dc)"
proof -
  obtain r' c' where n': "n' = (r', c')" by (cases n') auto
  define dr where "dr = r' - r"
  define dc where "dc = c' - c"
  have m: "max \<bar>dr\<bar> \<bar>dc\<bar> = 1" using assms by (simp add: adjacent8_def n' dr_def dc_def)
  then have "dr \<in> {-1, 0, 1}" "dc \<in> {-1, 0, 1}" "(dr, dc) \<noteq> (0, 0)" by (auto simp: max_def split: if_splits)
  then have "(dr, dc, 1.0) \<in> set neighbors \<or> (dr, dc, 1.414) \<in> set neighbors"
    by (auto simp: neighbors_def)
  then obtain dm where "(dr, dc, dm) \<in> set neighbors" by blast
  moreover have "n' = (r + dr, c + dc)" by (simp add: n' dr_def dc_def)
  ultimately show ?thesis by (rule that)
qed

lemma confinedD:
  assumes "confined m P s"
  shows "\<And>n. ignition_time s n \<noteq> None \<Longrightarrow> n \<in> P"
    and "\<And>t r c. (t, r, c) \<in> set (pq s) \<Longrightarrow> (r, c) \<in> P \<and> (r, c) \<in> set (cells m)"
  using assms unfolding confined_def by blast+

lemma confinedI:
  assumes "\<And>n. ignition_time s n \<noteq> None \<Longrightarrow> n \<in> P"
    and "\<And>t r c. (t, r, c) \<in> set (pq s) \<Longrightarrow> (r, c) \<in> P \<and> (r, c) \<in> set (cells m)"
  shows "confined m P s"
  unfolding confined_def using assms by blast

lemma confined_push:
  assumes c: "confined m P s" and n: "(r, c) \<in> P" "(r, c) \<in> set (cells m)"
  shows "confined m P (s\<lparr>ignition_time := (ignition_time s)((r, c) := Some t'),
                           pq := heappush (pq s) (t', r, c), rng := g\<rparr>)"
proof (rule confinedI)
  fix n assume "ignition_time (s\<lparr>ignition_time := (ignition_time s)((r, c) := Some t'),
                  pq := heappush (pq s) (t', r, c), rng := g\<rparr>) n \<noteq> None"
  then show "n \<in> P" using confinedD(1)[OF c, of n] n(1) by (cases "n = (r, c)") auto
next
  fix t ra ca assume "(t, ra, ca) \<in> set (pq (s\<lparr>ignition_time := (ignition_time s)((r, c) := Some t'),
                  pq := heappush (pq s) (t', r, c), rng := g\<rparr>))"
  then show "(ra, ca) \<in> P \<and> (ra, ca) \<in> set (cells m)"
    using confinedD(2)[OF c, of t ra ca] n by (auto simp: heappush_def)
qed

lemma confined_frame:
  assumes c: "confined m P s" and "set pq' \<subseteq> set (pq s)"
  shows "confined m P (s\<lparr>pq := pq', visited := V\<rparr>)" "confined m P (s\<lparr>rng := g\<rparr>)"
  using assms unfolding confined_def by auto

lemma confined_step:
  assumes c: "confined m P s" and ne: "pq s \<noteq> []"
    and edge: "\<And>n n'. n \<in> P \<Longrightarrow> n \<in> set (cells m) \<Longrightarrow> adjacent8 n n' \<Longrightarrow>
                 n' \<in> set (cells m) \<Longrightarrow> fuel m n' \<noteq> 3 \<Longrightarrow> n' \<in> P"
    and spot: "\<And>n'. wind_speed m > 5 \<Longrightarrow> n' \<in> set (cells m) \<Longrightarrow> fuel m n' \<in> {1, 2} \<Longrightarrow> n' \<in> P"
  shows "confined m P (outcome_state (iteration m max_time s))"
proof -
  obtain t r c pq' where hp: "heappop (pq s) = ((t, r, c), pq')"
    by (cases "heappop (pq s)") auto
  note hs = heappop_set[OF ne hp]
  have src: "(r, c) \<in> P" "(r, c) \<in> set (cells m)" using confinedD(2)[OF c] hs(1) by blast+
  then have inb: "0 \<le> r \<and> r < rows m \<and> 0 \<le> c \<and> c < cols m" by (simp add: set_cells)
  from hp inb show ?thesis
  proof (cases rule: iteration_cases_in_grid[where max_time = max_time])
    case break
    then show ?thesis
      using confined_frame(1)[OF c hs(2), of "visited s"] by (simp add: outcome_state_def)
  next
    case stale
    then show ?thesis
      using confined_frame(1)[OF c hs(2), of "visited s"] by (simp add: outcome_state_def)
  next
    case visit
    have "confined m P (case ember_spotting m t r c (r, c) (settle m t r c (r, c) (s\<lparr>pq := pq'\<rparr>)) of
                     Inl (e, s4) \<Rightarrow> s4 | Inr s4 \<Rightarrow> s4)"
    proof (rule visit_invariant)
      show "confined m P (s\<lparr>pq := pq', visited := insert (r, c) (visited (s\<lparr>pq := pq'\<rparr>))\<rparr>)"
        using confined_frame(1)[OF c hs(2)] by simp
    next
      fix s1 dr dc dm
      assume J: "confined m P s1" and d: "(dr, dc, dm) \<in> set neighbors"
        and nb: "0 \<le> r + dr \<and> r + dr < rows m \<and> 0 \<le> c + dc \<and> c + dc < cols m"
        and w: "fuel m (r + dr, c + dc) \<noteq> 3"
      let ?t' = "t + travel_time m (elevation m (r, c)) (r + dr, c + dc) (dr, dc, dm)"
      have cell: "(r + dr, c + dc) \<in> set (cells m)" using nb by (simp add: set_cells)
      have "(r + dr, c + dc) \<in> P"
        using edge[OF src adjacent8_neighbors[OF d] cell w] .
      from confined_push[OF J this cell, where t' = ?t' and g = "rng s1"]
      show "confined m P (s1\<lparr>ignition_time := (ignition_time s1)((r + dr, c + dc) := Some ?t'),
                   pq := heappush (pq s1) (?t', r + dr, c + dc)\<rparr>)"
        by simp
    next
      fix s1 g assume "confined m P s1"
      then show "confined m P (s1\<lparr>rng := g\<rparr>)" unfolding confined_def by simp
    next
      fix s1 g t' sr sc
      assume J: "confined m P s1" and ws: "5 < wind_speed m"
        and nb: "0 \<le> sr \<and> sr < rows m \<and> 0 \<le> sc \<and> sc < cols m"
        and f: "fuel m (sr, sc) \<in> {1, 2}"
      have cell: "(sr, sc) \<in> set (cells m)" using nb by (simp add: set_cells)
      show "confined m P (s1\<lparr>ignition_time := (ignition_time s1)((sr, sc) := Some t'),
                   pq := heappush (pq s1) (t', sr, sc), rng := g\<rparr>)"
        by (rule confined_push[OF J spot[OF ws cell f] cell])
    qed
    then show ?thesis unfolding visit(3) by (auto simp: outcome_state_def split: sum.splits)
  qed
qed

lemma confined_run:
  assumes c: "confined m P s"
    and edge: "\<And>n n'. n \<in> P \<Longrightarrow> n \<in> set (cells m) \<Longrightarrow> adjacent8 n n' \<Longrightarrow>
                 n' \<in> set (cells m) \<Longrightarrow> fuel m n' \<noteq> 3 \<Longrightarrow> n' \<in> P"
    and spot: "\<And>n'. wind_speed m > 5 \<Longrightarrow> n' \<in> set (cells m) \<Longrightarrow> fuel m n' \<in> {1, 2} \<Longrightarrow> n' \<in> P"
  shows "confined m P (final_state (run_loop m max_time s))"
proof (rule run_loop_invariant[where I = "confined m P"])
  show "confined m P s" by (rule c)
next
  fix s1 s2 assume "confined m P s1" "pq s1 \<noteq> []" "iteration m max_time s1 = Continue s2"
  then show "confined m P s2"
    using confined_step[of m P s1 max_time, OF _ _ edge spot] by (simp add: outcome_state_def)
next
  fix s1 s2 assume "confined m P s1" "pq s1 \<noteq> []" "iteration m max_time s1 = Break s2"
  then show "confined m P s2"
    using confined_step[of m P s1 max_time, OF _ _ edge spot] by (simp add: outcome_state_def)
next
  fix s1 s2 e assume "confined m P s1" "pq s1 \<noteq> []" "iteration m max_time s1 = Raise e s2"
  then show "confined m P s2"
    using confined_step[of m P s1 max_time, OF _ _ edge spot] by (simp add: outcome_state_def)
qed

lemma water_free_path_last:
  "water_free_path m p \<Longrightarrow> last p \<in> set (cells m) \<and> fuel m (last p) \<noteq> 3"
  by (induction m p rule: water_free_path.induct) auto

lemma water_free_path_snoc:
  assumes "water_free_path m p" "adjacent8 (last p) n'" "n' \<in> set (cells m)" "fuel m n' \<noteq> 3"
  shows "water_free_path m (p @ [n'])"
  using assms by (induction m p rule: water_free_path.induct) auto

lemma connected_seed:
  "FireModel.ignition_time m n \<noteq> None \<Longrightarrow> n \<in> set (cells m) \<Longrightarrow> fuel m n \<noteq> 3 \<Longrightarrow> connected m n"
  unfolding connected_def by (rule exI[of _ "[n]"]) simp

lemma connected_step:
  assumes "connected m n" "adjacent8 n n'" "n' \<in> set (cells m)" "fuel m n' \<noteq> 3"
  shows "connected m n'"
proof -
  from assms(1) obtain p where p: "water_free_path m p" "FireModel.ignition_time m (hd p) \<noteq> None"
    "last p = n" unfolding connected_def by blast
  have ne: "p \<noteq> []" using p(1) by (cases p) auto
  have "water_free_path m (p @ [n'])" using water_free_path_snoc[OF p(1) _ assms(3,4)] p(3) assms(2) by simp
  moreover have "hd (p @ [n']) = hd p" using ne by simp
  ultimately show ?thesis unfolding connected_def using p(2) by (intro exI[of _ "p @ [n']"]) simp
qed

lemma confined_start:
  assumes "\<And>n. FireModel.ignition_time m n \<noteq> None \<Longrightarrow> n \<in> P \<and> n \<in> set (cells m)"
  shows "confined m P (start_state m g)"
proof (rule confinedI)
  fix n assume "ignition_time (start_state m g) n \<noteq> None"
  then show "n \<in> P" using assms by (simp add: start_state_sel)
next
  fix t r c assume "(t, r, c) \<in> set (pq (start_state m g))"
  then have "(r, c) \<in> set (start_cells m)" unfolding start_queue_set by auto
  then have "FireModel.ignition_time m (r, c) \<noteq> None" by (simp add: start_cells_def)
  then show "(r, c) \<in> P \<and> (r, c) \<in> set (cells m)" using assms by blast
qed

lemma ignites_seeds:
  assumes "\<And>n. FireModel.ignition_time m n \<noteq> None \<Longrightarrow> n \<in> set (cells m) \<and> fuel m n \<noteq> 3"
    and "FireModel.ignition_time (fold (\<lambda>(r, c, t). ignite r c t) igs m) n \<noteq> None"
  shows "n \<in> set (cells m) \<and> fuel m n \<noteq> 3"
  using assms
proof (induction igs arbitrary: m)
  case Nil
  then show ?case by simp
next
  case (Cons i igs)
  obtain r c t where i: "i = (r, c, t)" by (cases i) auto
  have "n \<in> set (cells (ignite r c t m)) \<and> fuel (ignite r c t m) n \<noteq> 3"
  proof (rule Cons.IH)
    fix n' assume "FireModel.ignition_time (ignite r c t m) n' \<noteq> None"
    then show "n' \<in> set (cells (ignite r c t m)) \<and> fuel (ignite r c t m) n' \<noteq> 3"
      using Cons.prems(1)[of n'] by (auto simp: ignite_sel ignite_time split: if_splits)
  next
    show "FireModel.ignition_time (fold (\<lambda>(r, c, t). ignite r c t) igs (ignite r c t m)) n \<noteq> None"
      using Cons.prems(2) by (simp add: i)
  qed
  then show ?case by (simp add: ignite_sel)
qed

lemma water_stays_never:
  assumes seeds: "\<And>n. FireModel.ignition_time m n \<noteq> None \<Longrightarrow> n \<in> set (cells m) \<and> fuel m n \<noteq> 3"
    and w: "fuel m n = 3"
  shows "ignition_time (final_state (run_simulation m max_time g)) n = None"
proof -
  have "confined m {n. fuel m n \<noteq> 3} (final_state (run_loop m max_time (start_state m g)))"
  proof (rule confined_run)
    show "confined m {n. fuel m n \<noteq> 3} (start_state m g)"
      using seeds by (intro confined_start) auto
  qed auto
  then show ?thesis using w confinedD(1) unfolding run_simulation_def by fastforce
qed

lemma barrier_stays_never:
  assumes seeds: "\<And>n. FireModel.ignition_time m n \<noteq> None \<Longrightarrow> n \<in> set (cells m) \<and> fuel m n \<noteq> 3"
    and calm: "wind_speed m \<le> 5" and nc: "\<not> connected m n"
  shows "ignition_time (final_state (run_simulation m max_time g)) n = None"
proof -
  have "confined m {n. connected m n} (final_state (run_loop m max_time (start_state m g)))"
  proof (rule confined_run)
    show "confined m {n. connected m n} (start_state m g)"
      using seeds connected_seed by (intro confined_start) auto
  next
    fix n n' assume "n \<in> {n. connected m n}" "adjacent8 n n'" "n' \<in> set (cells m)" "fuel m n' \<noteq> 3"
    then show "n' \<in> {n. connected m n}" using connected_step by auto
  next
    fix n' assume "5 < wind_speed m"
    then show "n' \<in> {n. connected m n}" using calm by simp
  qed
  then show ?thesis using nc confinedD(1) unfolding run_simulation_def by fastforce
qed

subsection \<open>The fire reaches every connected cell\<close>

lemma travel_time_le:
  assumes "0 \<le> cell_size m" "fuel m n \<noteq> 3" "d \<in> set neighbors"
  shows "travel_time m e n d \<le> 1414 * cell_size m"
proof -
  obtain dr dc dm where d: "d = (dr, dc, dm)" by (cases d) auto
  let ?rate = "dict_get base_rates (fuel m n) 0.5 * slope_factor m e n dm * wind_factor m (fuel m n) d"
  have rate: "1 / 1000 \<le> ?rate" by (rule final_rate_ge[OF assms(2)])
  have dm: "1 \<le> dm" "dm \<le> 1.414" using neighbors_mult[of dr dc dm] assms(3) d by auto
  have dist: "0 \<le> cell_size m * dm" "cell_size m * dm \<le> cell_size m * 1.414"
    using assms(1) dm(1) mult_left_mono[OF dm(2) assms(1)] by auto
  have "cell_size m * dm / ?rate \<le> cell_size m * dm / (1 / 1000)"
    using rate dist(1) by (intro divide_left_mono) auto
  also have "\<dots> = 1000 * (cell_size m * dm)" by simp
  also have "\<dots> \<le> 1000 * (cell_size m * 1.414)"
    by (rule mult_left_mono[OF dist(2)]) simp
  also have "\<dots> = 1414 * cell_size m" by simp
  finally show ?thesis by (simp add: travel_time_def d Let_def)
qed

lemma spread_invD:
  assumes "spread_inv m S D s"
  shows "\<And>t r c. (t, r, c) \<in> set (pq s) \<Longrightarrow> (r, c) \<in> set (cells m) \<and> ignition_time s (r, c) \<noteq> None
             \<and> t \<le> S + real (card (visited s)) * D"
    and "\<And>r c t. ignition_time s (r, c) = Some t \<Longrightarrow> (r, c) \<in> visited s \<or> (t, r, c) \<in> set (pq s)"
    and "visited s \<subseteq> set (cells m)"
    and "\<And>n. n \<in> visited s \<Longrightarrow> ignition_time s n \<noteq> None"
    and "\<And>n. FireModel.ignition_time m n \<noteq> None \<Longrightarrow> ignition_time s n \<noteq> None"
    and "uniform_ok (rng s)"
  using assms unfolding spread_inv_def by blast+

lemma spread_invI:
  assumes "\<And>t r c. (t, r, c) \<in> set (pq s) \<Longrightarrow> (r, c) \<in> set (cells m) \<and> ignition_time s (r, c) \<noteq> None
             \<and> t \<le> S + real (card (visited s)) * D"
    and "\<And>r c t. ignition_time s (r, c) = Some t \<Longrightarrow> (r, c) \<in> visited s \<or> (t, r, c) \<in> set (pq s)"
    and "visited s \<subseteq> set (cells m)"
    and "\<And>n. n \<in> visited s \<Longrightarrow> ignition_time s n \<noteq> None"
    and "\<And>n. FireModel.ignition_time m n \<noteq> None \<Longrightarrow> ignition_time s n \<noteq> None"
    and "uniform_ok (rng s)"
  shows "spread_inv m S D s"
  unfolding spread_inv_def using assms by blast

lemma spread_inv_stale:
  assumes inv: "spread_inv m S D s" and sub: "set pq' \<subseteq> set (pq s)"
    and rest: "set (pq s) \<subseteq> insert (t, r, c) (set pq')" and v: "(r, c) \<in> visited s"
  shows "spread_inv m S D (s\<lparr>pq := pq'\<rparr>)"
proof (rule spread_invI)
  show "\<And>t r c. (t, r, c) \<in> set (pq (s\<lparr>pq := pq'\<rparr>)) \<Longrightarrow>
          (r, c) \<in> set (cells m) \<and> ignition_time (s\<lparr>pq := pq'\<rparr>) (r, c) \<noteq> None
          \<and> t \<le> S + real (card (visited (s\<lparr>pq := pq'\<rparr>))) * D"
    using spread_invD(1)[OF inv] sub by auto
  show "\<And>ra ca ta. ignition_time (s\<lparr>pq := pq'\<rparr>) (ra, ca) = Some ta \<Longrightarrow>
          (ra, ca) \<in> visited (s\<lparr>pq := pq'\<rparr>) \<or> (ta, ra, ca) \<in> set (pq (s\<lparr>pq := pq'\<rparr>))"
    using spread_invD(2)[OF inv] rest v by simp blast
  show "visited (s\<lparr>pq := pq'\<rparr>) \<subseteq> set (cells m)" using spread_invD(3)[OF inv] by simp
  show "\<And>n. n \<in> visited (s\<lparr>pq := pq'\<rparr>) \<Longrightarrow> ignition_time (s\<lparr>pq := pq'\<rparr>) n \<noteq> None"
    using spread_invD(4)[OF inv] by simp
  show "\<And>n. FireModel.ignition_time m n \<noteq> None \<Longrightarrow> ignition_time (s\<lparr>pq := pq'\<rparr>) n \<noteq> None"
    using spread_invD(5)[OF inv] by simp
  show "uniform_ok (rng (s\<lparr>pq := pq'\<rparr>))" using spread_invD(6)[OF inv] by simp
qed

lemma card_visited_insert:
  assumes "visited s \<subseteq> set (cells m)" "n \<notin> visited s"
  shows "real (card (insert n (visited s))) = real (card (visited s)) + 1"
proof -
  have "finite (visited s)" using assms(1) by (rule finite_subset) simp
  then show ?thesis using assms(2) by simp
qed

lemma spread_inv_mark:
  assumes inv: "spread_inv m S D s" and sub: "set pq' \<subseteq> set (pq s)"
    and rest: "set (pq s) \<subseteq> insert (t, r, c) (set pq')" and popped: "(t, r, c) \<in> set (pq s)"
    and nv: "(r, c) \<notin> visited s" and D: "0 \<le> D"
  shows "spread_inv m S D (s\<lparr>pq := pq', visited := insert (r, c) (visited s)\<rparr>)"
    (is "spread_inv m S D ?s'")
proof (rule spread_invI)
  have card: "real (card (visited ?s')) = real (card (visited s)) + 1"
    using card_visited_insert[OF spread_invD(3)[OF inv] nv] by simp
  show "\<And>t r c. (t, r, c) \<in> set (pq ?s') \<Longrightarrow>
          (r, c) \<in> set (cells m) \<and> ignition_time ?s' (r, c) \<noteq> None
          \<and> t \<le> S + real (card (visited ?s')) * D"
  proof -
    fix ta ra ca assume "(ta, ra, ca) \<in> set (pq ?s')"
    then have "(ta, ra, ca) \<in> set (pq s)" using sub by auto
    from spread_invD(1)[OF inv this]
    have a: "(ra, ca) \<in> set (cells m)" "ignition_time s (ra, ca) \<noteq> None"
      "ta \<le> S + real (card (visited s)) * D" by auto
    have "S + real (card (visited s)) * D \<le> S + (real (card (visited s)) + 1) * D"
      using D by (simp add: algebra_simps)
    then show "(ra, ca) \<in> set (cells m) \<and> ignition_time ?s' (ra, ca) \<noteq> None
          \<and> ta \<le> S + real (card (visited ?s')) * D"
      using a unfolding card by simp
  qed
  show "\<And>ra ca ta. ignition_time ?s' (ra, ca) = Some ta \<Longrightarrow>
          (ra, ca) \<in> visited ?s' \<or> (ta, ra, ca) \<in> set (pq ?s')"
    using spread_invD(2)[OF inv] rest by simp blast
  show "visited ?s' \<subseteq> set (cells m)"
    using spread_invD(3)[OF inv] spread_invD(1)[OF inv popped] by simp
  show "\<And>n. n \<in> visited ?s' \<Longrightarrow> ignition_time ?s' n \<noteq> None"
    using spread_invD(4)[OF inv] spread_invD(1)[OF inv popped] by auto
  show "\<And>n. FireModel.ignition_time m n \<noteq> None \<Longrightarrow> ignition_time ?s' n \<noteq> None"
    using spread_invD(5)[OF inv] by simp
  show "uniform_ok (rng ?s')" using spread_invD(6)[OF inv] by simp
qed

lemma spread_inv_push:
  assumes inv: "spread_inv m S D s" and cell: "(r, c) \<in> set (cells m)"
    and bound: "t' \<le> S + real (card (visited s)) * D" and ok: "uniform_ok g"
  shows "spread_inv m S D (s\<lparr>ignition_time := (ignition_time s)((r, c) := Some t'),
                             pq := heappush (pq s) (t', r, c), rng := g\<rparr>)"
    (is "spread_inv m S D ?s'")
proof (rule spread_invI)
  show "\<And>t ra ca. (t, ra, ca) \<in> set (pq ?s') \<Longrightarrow>
          (ra, ca) \<in> set (cells m) \<and> ignition_time ?s' (ra, ca) \<noteq> None
          \<and> t \<le> S + real (card (visited ?s')) * D"
    using spread_invD(1)[OF inv] cell bound by (auto simp: heappush_def)
  show "\<And>ra ca ta. ignition_time ?s' (ra, ca) = Some ta \<Longrightarrow>
          (ra, ca) \<in> visited ?s' \<or> (ta, ra, ca) \<in> set (pq ?s')"
    using spread_invD(2)[OF inv] by (auto simp: heappush_def split: if_splits)
  show "visited ?s' \<subseteq> set (cells m)" using spread_invD(3)[OF inv] by simp
  show "\<And>n. n \<in> visited ?s' \<Longrightarrow> ignition_time ?s' n \<noteq> None"
    using spread_invD(4)[OF inv] by auto
  show "\<And>n. FireModel.ignition_time m n \<noteq> None \<Longrightarrow> ignition_time ?s' n \<noteq> None"
    using spread_invD(5)[OF inv] by auto
  show "uniform_ok (rng ?s')" using ok by simp
qed

lemma spread_inv_rng:
  assumes "spread_inv m S D s" "uniform_ok g"
  shows "spread_inv m S D (s\<lparr>rng := g\<rparr>)"
  using assms unfolding spread_inv_def by simp

lemma spread_inv_step:
  assumes inv: "spread_inv m S D s" and ne: "pq s \<noteq> []"
    and cs: "0 \<le> cell_size m" and D: "1414 * cell_size m \<le> D" "30 \<le> D"
    and it: "iteration m max_time s = Continue s'"
  shows "spread_inv m S D s'"
proof -
  obtain t r c pq' where hp: "heappop (pq s) = ((t, r, c), pq')"
    by (cases "heappop (pq s)") auto
  note hs = heappop_set[OF ne hp]
  note popped = spread_invD(1)[OF inv hs(1)]
  have inb: "0 \<le> r \<and> r < rows m \<and> 0 \<le> c \<and> c < cols m" using popped by (simp add: set_cells)
  have D0: "0 \<le> D" using D(2) by simp
  from hp inb show ?thesis
  proof (cases rule: iteration_cases_in_grid[where max_time = max_time])
    case break
    then show ?thesis using it by simp
  next
    case stale
    then show ?thesis
      using spread_inv_stale[OF inv hs(2,3) stale(2)] it by simp
  next
    case visit
    let ?J = "spread_inv m S D"
    have "?J (case ember_spotting m t r c (r, c) (settle m t r c (r, c) (s\<lparr>pq := pq'\<rparr>)) of
                     Inl (e, s4) \<Rightarrow> s4 | Inr s4 \<Rightarrow> s4)"
    proof (rule visit_invariant)
      show "?J (s\<lparr>pq := pq', visited := insert (r, c) (visited (s\<lparr>pq := pq'\<rparr>))\<rparr>)"
        using spread_inv_mark[OF inv hs(2,3,1) visit(2) D0] by simp
    next
      fix s1 dr dc dm
      assume J: "?J s1" and v1: "visited s1 = insert (r, c) (visited (s\<lparr>pq := pq'\<rparr>))"
        and d: "(dr, dc, dm) \<in> set neighbors"
        and nb: "0 \<le> r + dr \<and> r + dr < rows m \<and> 0 \<le> c + dc \<and> c + dc < cols m"
        and w: "fuel m (r + dr, c + dc) \<noteq> 3"
      let ?t' = "t + travel_time m (elevation m (r, c)) (r + dr, c + dc) (dr, dc, dm)"
      have cell: "(r + dr, c + dc) \<in> set (cells m)" using nb by (simp add: set_cells)
      have card: "real (card (visited s1)) = real (card (visited s)) + 1"
        using card_visited_insert[OF spread_invD(3)[OF inv] visit(2)] v1 by simp
      have "?t' \<le> (S + real (card (visited s)) * D) + D"
        using popped travel_time_le[OF cs w d, of "elevation m (r, c)"] D(1) by simp
      then have bound: "?t' \<le> S + real (card (visited s1)) * D"
        unfolding card by (simp add: algebra_simps)
      from spread_inv_push[OF J cell bound spread_invD(6)[OF J]]
      show "?J (s1\<lparr>ignition_time := (ignition_time s1)((r + dr, c + dc) := Some ?t'),
                   pq := heappush (pq s1) (?t', r + dr, c + dc)\<rparr>)"
        by simp
    next
      fix s1 g assume "?J s1" "uniform_ok (rng (s\<lparr>pq := pq'\<rparr>)) \<longrightarrow> uniform_ok g"
      then show "?J (s1\<lparr>rng := g\<rparr>)"
        using spread_invD(6)[OF inv] by (intro spread_inv_rng) auto
    next
      fix s1 g t' sr sc
      assume J: "?J s1" and v1: "visited s1 = insert (r, c) (visited (s\<lparr>pq := pq'\<rparr>))"
        and nb: "0 \<le> sr \<and> sr < rows m \<and> 0 \<le> sc \<and> sc < cols m"
        and ok: "uniform_ok (rng (s\<lparr>pq := pq'\<rparr>)) \<longrightarrow> t + 10 \<le> t' \<and> t' < t + 30 \<and> uniform_ok g"
      have cell: "(sr, sc) \<in> set (cells m)" using nb by (simp add: set_cells)
      have okg: "t' < t + 30" "uniform_ok g" using ok spread_invD(6)[OF inv] by auto
      have card: "real (card (visited s1)) = real (card (visited s)) + 1"
        using card_visited_insert[OF spread_invD(3)[OF inv] visit(2)] v1 by simp
      have "t' \<le> (S + real (card (visited s)) * D) + D"
        using popped okg(1) D(2) by simp
      then have bound: "t' \<le> S + real (card (visited s1)) * D"
        unfolding card by (simp add: algebra_simps)
      show "?J (s1\<lparr>ignition_time := (ignition_time s1)((sr, sc) := Some t'),
                   pq := heappush (pq s1) (t', sr, sc), rng := g\<rparr>)"
        by (rule spread_inv_push[OF J cell bound okg(2)])
    qed
    then show ?thesis using it unfolding visit(3) by (auto split: sum.splits)
  qed
qed

lemma relax_finite_mono:
  "ignition_time s x \<noteq> None \<Longrightarrow> ignition_time (relax m t r c e d s) x \<noteq> None"
proof -
  obtain dr dc dm where d: "d = (dr, dc, dm)" by (cases d) auto
  show "ignition_time s x \<noteq> None \<Longrightarrow> ignition_time (relax m t r c e d s) x \<noteq> None"
    using relax_cases[of m t r c e dr dc dm s] unfolding d by auto
qed

lemma fold_relax_finite_mono:
  "ignition_time s x \<noteq> None \<Longrightarrow> ignition_time (fold (relax m t r c e) ds s) x \<noteq> None"
proof (induction ds arbitrary: s)
  case Nil
  then show ?case by simp
next
  case (Cons d ds)
  show ?case using Cons.IH[OF relax_finite_mono[OF Cons.prems]] by simp
qed

lemma ember_finite_mono:
  assumes "ignition_time s x \<noteq> None"
  shows "ignition_time (case ember_spotting m t r c n s of Inl (e, s') \<Rightarrow> s' | Inr s' \<Rightarrow> s') x \<noteq> None"
  by (cases rule: ember_spotting_outcomes[of m n t r c s]) (use assms in auto)

lemma relax_makes_finite:
  assumes "0 \<le> r + dr \<and> r + dr < rows m \<and> 0 \<le> c + dc \<and> c + dc < cols m"
    and "(r + dr, c + dc) \<notin> visited s" and "fuel m (r + dr, c + dc) \<noteq> 3"
  shows "ignition_time (relax m t r c e (dr, dc, dm) s) (r + dr, c + dc) \<noteq> None"
  using assms by (cases "ignition_time s (r + dr, c + dc)") (simp_all add: relax_def Let_def time_lt_def)

lemma fold_relax_makes_finite:
  assumes "(dr, dc, dm) \<in> set ds"
    and "0 \<le> r + dr \<and> r + dr < rows m \<and> 0 \<le> c + dc \<and> c + dc < cols m"
    and "(r + dr, c + dc) \<notin> visited s" and "fuel m (r + dr, c + dc) \<noteq> 3"
  shows "ignition_time (fold (relax m t r c e) ds s) (r + dr, c + dc) \<noteq> None"
  using assms(1,3)
proof (induction ds arbitrary: s)
  case Nil
  then show ?case by simp
next
  case (Cons d ds)
  show ?case
  proof (cases "d = (dr, dc, dm)")
    case True
    have "ignition_time (relax m t r c e d s) (r + dr, c + dc) \<noteq> None"
      unfolding True by (rule relax_makes_finite[OF assms(2) Cons.prems(2) assms(4)])
    then show ?thesis by (simp add: fold_relax_finite_mono)
  next
    case False
    then have "(dr, dc, dm) \<in> set ds" using Cons.prems(1) by simp
    moreover have "(r + dr, c + dc) \<notin> visited (relax m t r c e d s)"
      using Cons.prems(2) by (simp add: relax_visited)
    ultimately show ?thesis using Cons.IH by simp
  qed
qed

lemma closed_invD:
  "closed_inv m s \<Longrightarrow> n \<in> visited s \<Longrightarrow> adjacent8 n n' \<Longrightarrow> n' \<in> set (cells m) \<Longrightarrow>
     fuel m n' \<noteq> 3 \<Longrightarrow> ignition_time s n' \<noteq> None"
  unfolding closed_inv_def by blast

lemma closed_inv_step:
  assumes inv: "spread_inv m S D s" and cl: "closed_inv m s" and ne: "pq s \<noteq> []"
    and it: "iteration m max_time s = Continue s'"
  shows "closed_inv m s'"
proof -
  obtain t r c pq' where hp: "heappop (pq s) = ((t, r, c), pq')"
    by (cases "heappop (pq s)") auto
  note hs = heappop_set[OF ne hp]
  note popped = spread_invD(1)[OF inv hs(1)]
  have inb: "0 \<le> r \<and> r < rows m \<and> 0 \<le> c \<and> c < cols m" using popped by (simp add: set_cells)
  from hp inb show ?thesis
  proof (cases rule: iteration_cases_in_grid[where max_time = max_time])
    case break
    then show ?thesis using it by simp
  next
    case stale
    then have "s' = s\<lparr>pq := pq'\<rparr>" using it by simp
    then show ?thesis using cl by (simp add: closed_inv_def)
  next
    case visit
    let ?s3 = "settle m t r c (r, c) (s\<lparr>pq := pq'\<rparr>)"
    have s': "s' = (case ember_spotting m t r c (r, c) ?s3 of Inl (e, s4) \<Rightarrow> s4 | Inr s4 \<Rightarrow> s4)"
      using visit(3) it by (auto split: sum.splits)
    have v': "visited s' = insert (r, c) (visited s)"
      unfolding s' by (simp add: ember_visited settle_visited)
    have mono3: "ignition_time s x \<noteq> None \<Longrightarrow> ignition_time ?s3 x \<noteq> None" for x
      unfolding settle_def by (rule fold_relax_finite_mono) simp
    have mono: "ignition_time s x \<noteq> None \<Longrightarrow> ignition_time s' x \<noteq> None" for x
      unfolding s' by (rule ember_finite_mono) (rule mono3)
    show ?thesis
      unfolding closed_inv_def
    proof (intro ballI allI impI)
      fix n n' assume n: "n \<in> visited s'"
        and a: "adjacent8 n n' \<and> n' \<in> set (cells m) \<and> fuel m n' \<noteq> 3"
      show "ignition_time s' n' \<noteq> None"
      proof (cases "n \<in> visited s")
        case True
        then show ?thesis using closed_invD[OF cl True] a mono by blast
      next
        case False
        then have n_eq: "n = (r, c)" using n v' by simp
        from a obtain dr dc dm where d: "(dr, dc, dm) \<in> set neighbors" and n': "n' = (r + dr, c + dc)"
          unfolding n_eq by (blast elim: adjacent8_cases)
        have nb: "0 \<le> r + dr \<and> r + dr < rows m \<and> 0 \<le> c + dc \<and> c + dc < cols m"
          using a n' by (simp add: set_cells)
        show ?thesis
        proof (cases "n' \<in> insert (r, c) (visited s)")
          case True
          then have "ignition_time s n' \<noteq> None"
            using spread_invD(4)[OF inv, of n'] popped by auto
          then show ?thesis by (rule mono)
        next
          case nv: False
          have "ignition_time ?s3 n' \<noteq> None"
            unfolding settle_def n'
            by (rule fold_relax_makes_finite[OF d nb]) (use nv a n' in auto)
          then show ?thesis unfolding s' by (rule ember_finite_mono)
        qed
      qed
    qed
  qed
qed

lemma spread_run:
  assumes inv: "spread_inv m S D s" and cl: "closed_inv m s"
    and cs: "0 \<le> cell_size m" and D: "1414 * cell_size m \<le> D" "30 \<le> D"
    and wind: "wind_speed m \<le> 5 \<or> 6 \<le> wind_speed m"
    and T: "S + real (card (set (cells m))) * D \<le> max_time"
  shows "\<exists>s'. run_loop m max_time s = Inr s' \<and> pq s' = [] \<and> spread_inv m S D s' \<and> closed_inv m s'"
    (is "?Q (run_loop m max_time s)")
proof (rule run_loop_result_invariant[where I = "\<lambda>s. spread_inv m S D s \<and> closed_inv m s" and Q = ?Q])
  show "spread_inv m S D s \<and> closed_inv m s" using inv cl by simp
next
  fix s1 s2 assume "spread_inv m S D s1 \<and> closed_inv m s1" "pq s1 \<noteq> []"
    "iteration m max_time s1 = Continue s2"
  then show "spread_inv m S D s2 \<and> closed_inv m s2"
    using spread_inv_step[of m S D s1 max_time s2, OF _ _ cs D] closed_inv_step[of m S D s1 max_time s2]
    by blast
next
  fix s1 assume "spread_inv m S D s1 \<and> closed_inv m s1" "pq s1 = []"
  then show "?Q (Inr s1)" by simp
next
  fix s1 s2 assume J: "spread_inv m S D s1 \<and> closed_inv m s1" and ne: "pq s1 \<noteq> []"
    and it: "iteration m max_time s1 = Break s2"
  obtain t r c pq' where hp: "heappop (pq s1) = ((t, r, c), pq')"
    by (cases "heappop (pq s1)") auto
  note hs = heappop_set[OF ne hp]
  note popped = spread_invD(1)[OF J[THEN conjunct1] hs(1)]
  have inb: "0 \<le> r \<and> r < rows m \<and> 0 \<le> c \<and> c < cols m" using popped by (simp add: set_cells)
  have "card (visited s1) \<le> card (set (cells m))"
    using spread_invD(3)[OF J[THEN conjunct1]] by (intro card_mono) auto
  then have "real (card (visited s1)) * D \<le> real (card (set (cells m))) * D"
    using D(2) by (intro mult_right_mono) auto
  then have "t \<le> max_time" using popped T by simp
  with hp inb have False
    by (cases rule: iteration_cases_in_grid[where max_time = max_time and m = m];
        use it in \<open>auto split: sum.splits\<close>)
  then show "?Q (Inr s2)" ..
next
  fix s1 s2 e assume J: "spread_inv m S D s1 \<and> closed_inv m s1" and ne: "pq s1 \<noteq> []"
    and it: "iteration m max_time s1 = Raise e s2"
  obtain t r c pq' where hp: "heappop (pq s1) = ((t, r, c), pq')"
    by (cases "heappop (pq s1)") auto
  note hs = heappop_set[OF ne hp]
  note popped = spread_invD(1)[OF J[THEN conjunct1] hs(1)]
  have inb: "0 \<le> r \<and> r < rows m \<and> 0 \<le> c \<and> c < cols m" using popped by (simp add: set_cells)
  from hp inb have False
  proof (cases rule: iteration_cases_in_grid[where max_time = max_time and m = m])
    case visit
    then show ?thesis
      using it ember_spotting_returns[OF wind, of t r c "(r, c)" "settle m t r c (r, c) (s1\<lparr>pq := pq'\<rparr>)"]
      by auto
  qed (use it in auto)
  then show "?Q (Inl (e, s2))" ..
qed

lemma water_free_path_hd:
  "water_free_path m p \<Longrightarrow> hd p \<in> set (cells m) \<and> fuel m (hd p) \<noteq> 3"
  by (induction m p rule: water_free_path.induct) auto

lemma path_visited:
  "water_free_path m p \<Longrightarrow> spread_inv m S D s \<Longrightarrow> closed_inv m s \<Longrightarrow> pq s = [] \<Longrightarrow>
     hd p \<in> visited s \<Longrightarrow> last p \<in> visited s"
proof (induction m p rule: water_free_path.induct)
  case (3 m n n' p)
  note path = "3.prems"(1) and inv = "3.prems"(2) and cl = "3.prems"(3) and emp = "3.prems"(4)
  have n: "n \<in> visited s" using "3.prems"(5) by simp
  have adj: "adjacent8 n n'" and rest: "water_free_path m (n' # p)" using path by simp_all
  have "n' \<in> set (cells m)" "fuel m n' \<noteq> 3" using water_free_path_hd[OF rest] by simp_all
  then have "ignition_time s n' \<noteq> None" using closed_invD[OF cl n adj] by blast
  then obtain t where "ignition_time s n' = Some t" by blast
  then have "n' \<in> visited s"
    using spread_invD(2)[OF inv, of "fst n'" "snd n'" t] emp by simp
  then have "last (n' # p) \<in> visited s" using "3.IH"[OF rest inv cl emp] by simp
  then show ?case by simp
qed simp_all

lemma spread_inv_start:
  assumes seeds: "\<And>n. FireModel.ignition_time m n \<noteq> None \<Longrightarrow> n \<in> set (cells m)"
    and ok: "uniform_ok g"
    and S: "\<And>t r c. (t, r, c) \<in> set (pq (start_state m g)) \<Longrightarrow> t \<le> S"
  shows "spread_inv m S D (start_state m g)"
proof (rule spread_invI)
  let ?s = "start_state m g"
  show "\<And>t r c. (t, r, c) \<in> set (pq ?s) \<Longrightarrow> (r, c) \<in> set (cells m)
          \<and> ignition_time ?s (r, c) \<noteq> None \<and> t \<le> S + real (card (visited ?s)) * D"
  proof -
    fix t r c assume e: "(t, r, c) \<in> set (pq ?s)"
    then have "(r, c) \<in> set (start_cells m)" unfolding start_queue_set by auto
    then have "(r, c) \<in> set (cells m)" "FireModel.ignition_time m (r, c) \<noteq> None"
      by (simp_all add: start_cells_def)
    then show "(r, c) \<in> set (cells m) \<and> ignition_time ?s (r, c) \<noteq> None
          \<and> t \<le> S + real (card (visited ?s)) * D"
      using S[OF e] by (simp add: start_state_sel)
  qed
  show "\<And>r c t. ignition_time ?s (r, c) = Some t \<Longrightarrow> (r, c) \<in> visited ?s \<or> (t, r, c) \<in> set (pq ?s)"
  proof -
    fix r c t assume t: "ignition_time ?s (r, c) = Some t"
    then have f: "FireModel.ignition_time m (r, c) = Some t" by (simp add: start_state_sel)
    then have "(r, c) \<in> set (start_cells m)" using seeds[of "(r, c)"] by (simp add: start_cells_def)
    then have "(the (FireModel.ignition_time m (r, c)), r, c) \<in> set (pq ?s)"
      unfolding start_queue_set by force
    then show "(r, c) \<in> visited ?s \<or> (t, r, c) \<in> set (pq ?s)" using f by simp
  qed
  show "visited ?s \<subseteq> set (cells m)" by (simp add: start_state_sel)
  show "\<And>n. n \<in> visited ?s \<Longrightarrow> ignition_time ?s n \<noteq> None" by (simp add: start_state_sel)
  show "\<And>n. FireModel.ignition_time m n \<noteq> None \<Longrightarrow> ignition_time ?s n \<noteq> None"
    by (simp add: start_state_sel)
  show "uniform_ok (rng ?s)" using ok by (simp add: start_state_sel)
qed

lemma connected_gets_finite:
  assumes seeds: "\<And>n. FireModel.ignition_time m n \<noteq> None \<Longrightarrow> n \<in> set (cells m)"
    and cs: "0 \<le> cell_size m" and ok: "uniform_ok g"
    and wind: "wind_speed m \<le> 5 \<or> 6 \<le> wind_speed m"
  shows "\<exists>T0. \<forall>T\<ge>T0. \<exists>s. run_simulation m T g = Inr s
           \<and> (\<forall>n. connected m n \<longrightarrow> ignition_time s n \<noteq> None)"
proof -
  define S where "S = Max (insert 0 (fst ` set (pq (start_state m g))))"
  define D where "D = max (1414 * cell_size m) 30"
  have S: "t \<le> S" if "(t, r, c) \<in> set (pq (start_state m g))" for t r c
  proof -
    have "t \<in> insert 0 (fst ` set (pq (start_state m g)))" using that by force
    then show ?thesis unfolding S_def by (intro Max_ge) auto
  qed
  have D: "1414 * cell_size m \<le> D" "30 \<le> D" by (simp_all add: D_def)
  have inv0: "spread_inv m S D (start_state m g)"
    by (rule spread_inv_start[OF seeds ok S])
  have cl0: "closed_inv m (start_state m g)" by (simp add: closed_inv_def start_state_sel)
  show ?thesis
  proof (intro exI[of _ "S + real (card (set (cells m))) * D"] allI impI)
    fix T assume T: "S + real (card (set (cells m))) * D \<le> T"
    from spread_run[OF inv0 cl0 cs D wind T]
    obtain s where run: "run_loop m T (start_state m g) = Inr s" and emp: "pq s = []"
      and inv: "spread_inv m S D s" and cl: "closed_inv m s" by blast
    have "ignition_time s n \<noteq> None" if "connected m n" for n
    proof -
      from that obtain p where p: "water_free_path m p" "FireModel.ignition_time m (hd p) \<noteq> None"
        "last p = n" unfolding connected_def by blast
      from spread_invD(5)[OF inv p(2)] obtain t where "ignition_time s (hd p) = Some t" by blast
      then have "hd p \<in> visited s"
        using spread_invD(2)[OF inv, of "fst (hd p)" "snd (hd p)" t] emp by simp
      then have "n \<in> visited s" using path_visited[OF p(1) inv cl emp] p(3) by simp
      then show ?thesis by (rule spread_invD(4)[OF inv])
    qed
    then show "\<exists>s. run_simulation m T g = Inr s \<and> (\<forall>n. connected m n \<longrightarrow> ignition_time s n \<noteq> None)"
      using run unfolding run_simulation_def by blast
  qed
qed

text \<open>
  C8, as the code has it. A fresh object is seeded by any calls of \<open>ignite\<close> and run (cell
  size positive, generator within its contract).
  \<^item> Every Water cell holds \<^verbatim>\<open>np.inf\<close> after the calls of \<open>ignite\<close> and after the run,
    whatever the wind and whether the run returns or raises.
  \<^item> When the wind speed is at most 5, so that no ember is thrown, every cell that no
    Water-free 8-connected path joins to a seed holds \<^verbatim>\<open>np.inf\<close> after the run.
  \<^item> When the wind speed is at most 5 or at least 6, there is a horizon \<open>T0\<close> such that
    every run with \<open>max_time \<ge> T0\<close> returns and gives a finite time to every cell that a
    Water-free 8-connected path joins to a seed.
\<close>

theorem water_barrier:
  assumes "m = fold (\<lambda>(r, c, t). ignite r c t) ignitions
                 (FireModel_init shape elevation_map fuel_map speed dir csize)"
    and "0 < csize" and "uniform_ok g"
  shows "(\<forall>n. fuel_map n = 3 \<longrightarrow>
            FireModel.ignition_time m n = None
            \<and> ignition_time (final_state (run_simulation m max_time g)) n = None)
       \<and> (speed \<le> 5 \<longrightarrow>
            (\<forall>n. \<not> connected m n \<longrightarrow>
               ignition_time (final_state (run_simulation m max_time g)) n = None))
       \<and> (speed \<le> 5 \<or> 6 \<le> speed \<longrightarrow>
            (\<exists>T0. \<forall>T\<ge>T0. \<exists>s. run_simulation m T g = Inr s
               \<and> (\<forall>n. connected m n \<longrightarrow> ignition_time s n \<noteq> None)))"
proof -
  let ?m0 = "FireModel_init shape elevation_map fuel_map speed dir csize"
  note sel = ignites_sel[of ignitions ?m0, folded assms(1)]
  have fuel: "fuel m = fuel_map" and ws: "wind_speed m = speed" and cs: "cell_size m = csize"
    and cells: "cells m = cells ?m0"
    using sel by (simp_all add: FireModel_init_def)
  have seeds: "n \<in> set (cells m) \<and> fuel m n \<noteq> 3" if "FireModel.ignition_time m n \<noteq> None" for n
  proof -
    have "n \<in> set (cells ?m0) \<and> fuel ?m0 n \<noteq> 3"
    proof (rule ignites_seeds[of ?m0 ignitions n])
      show "FireModel.ignition_time (fold (\<lambda>(r, c, t). ignite r c t) ignitions ?m0) n \<noteq> None"
        using that unfolding assms(1) .
    qed (simp add: FireModel_init_def)
    then show ?thesis using cells fuel by (simp add: FireModel_init_def)
  qed
  have a: "FireModel.ignition_time m n = None
           \<and> ignition_time (final_state (run_simulation m max_time g)) n = None"
    if "fuel_map n = 3" for n
  proof -
    have w: "fuel m n = 3" using that fuel by simp
    then have "FireModel.ignition_time m n = None" using seeds[of n] by blast
    then show ?thesis using water_stays_never[of m n max_time g, OF seeds w] by simp
  qed
  have b: "ignition_time (final_state (run_simulation m max_time g)) n = None"
    if "speed \<le> 5" "\<not> connected m n" for n
    using barrier_stays_never[of m n max_time g, OF seeds] that ws by simp
  have c: "\<exists>T0. \<forall>T\<ge>T0. \<exists>s. run_simulation m T g = Inr s
               \<and> (\<forall>n. connected m n \<longrightarrow> ignition_time s n \<noteq> None)"
    if "speed \<le> 5 \<or> 6 \<le> speed"
  proof (rule connected_gets_finite)
    show "\<And>n. FireModel.ignition_time m n \<noteq> None \<Longrightarrow> n \<in> set (cells m)" using seeds by blast
    show "0 \<le> cell_size m" using cs assms(2) by simp
    show "uniform_ok g" by (rule assms(3))
    show "wind_speed m \<le> 5 \<or> 6 \<le> wind_speed m" using that ws by simp
  qed
  show ?thesis using a b c by blast
qed

lemma lone_seed_not_connected:
  assumes seed: "\<And>n. FireModel.ignition_time m n \<noteq> None \<Longrightarrow> n = n0"
    and walled: "\<And>n'. adjacent8 n0 n' \<Longrightarrow> n' \<in> set (cells m) \<Longrightarrow> fuel m n' = 3"
    and other: "n \<noteq> n0"
  shows "\<not> connected m n"
proof
  assume "connected m n"
  then obtain p where p: "water_free_path m p" "FireModel.ignition_time m (hd p) \<noteq> None" "last p = n"
    unfolding connected_def by blast
  have hd: "hd p = n0" using seed[OF p(2)] .
  show False
  proof (cases p)
    case Nil
    then show ?thesis using p(1) by simp
  next
    case (Cons a q)
    show ?thesis
    proof (cases q)
      case Nil
      then show ?thesis using Cons p(3) hd other by simp
    next
      case (Cons b q')
      have "adjacent8 n0 b" "water_free_path m (b # q')"
        using p(1) hd \<open>p = a # q\<close> Cons by simp_all
      then show ?thesis using walled[of b] water_free_path_hd[of m "b # q'"] by simp
    qed
  qed
qed

lemma still_moat_sel:
  "elevation still_moat = (\<lambda>_. 0)" "fuel still_moat = (\<lambda>_. 2)((1, 0) := 3)"
  "rows still_moat = 4" "cols still_moat = 1" "cell_size still_moat = 30"
  "FireModel.ignition_time still_moat = (\<lambda>_. None)((0, 0) := Some 0)"
  "wind_speed still_moat = 0" "wind_dir still_moat = 0"
  by (simp_all add: still_moat_def FireModel_init_def ignite_def)

lemma moat_sel:
  "elevation moat = (\<lambda>_. 0)" "fuel moat = (\<lambda>_. 2)((1, 0) := 3)"
  "rows moat = 4" "cols moat = 1" "cell_size moat = 30"
  "FireModel.ignition_time moat = (\<lambda>_. None)((0, 0) := Some 0)"
  "wind_speed moat = 10" "wind_dir moat = 0"
  by (simp_all add: moat_def FireModel_init_def ignite_def)

lemma moat_not_connected: "\<not> connected moat (3, 0)" "\<not> connected still_moat (3, 0)"
proof -
  show "\<not> connected moat (3, 0)"
  proof (rule lone_seed_not_connected[where ?n0.0 = "(0, 0)"])
    show "\<And>n. FireModel.ignition_time moat n \<noteq> None \<Longrightarrow> n = (0, 0)"
      by (simp add: moat_sel split: if_splits)
    show "\<And>n'. adjacent8 (0, 0) n' \<Longrightarrow> n' \<in> set (cells moat) \<Longrightarrow> fuel moat n' = 3"
      by (auto simp: adjacent8_def set_cells moat_sel)
  qed simp
  show "\<not> connected still_moat (3, 0)"
  proof (rule lone_seed_not_connected[where ?n0.0 = "(0, 0)"])
    show "\<And>n. FireModel.ignition_time still_moat n \<noteq> None \<Longrightarrow> n = (0, 0)"
      by (simp add: still_moat_sel split: if_splits)
    show "\<And>n'. adjacent8 (0, 0) n' \<Longrightarrow> n' \<in> set (cells still_moat) \<Longrightarrow> fuel still_moat n' = 3"
      by (auto simp: adjacent8_def set_cells still_moat_sel)
  qed simp
qed

lemma strip_connected: "connected strip (3, 0)"
  unfolding connected_def
  by (rule exI[of _ "[(0, 0), (1, 0), (2, 0), (3, 0)]"])
     (simp add: strip_sel set_cells adjacent8_def)

theorem water_barrier_witness:
  "fuel still_moat (1, 0) = 3
   \<and> ignition_time (final_state (run_simulation still_moat 1000 g_calm)) (1, 0) = None
   \<and> \<not> connected still_moat (3, 0)
   \<and> ignition_time (final_state (run_simulation still_moat 1000 g_calm)) (3, 0) = None
   \<and> connected strip (3, 0)
   \<and> (\<exists>T0. \<forall>T\<ge>T0. \<exists>s. run_simulation strip T g_spot = Inr s \<and> ignition_time s (3, 0) \<noteq> None)"
proof -
  have m1: "still_moat = fold (\<lambda>(r, c, t). ignite r c t) [(0, 0, 0)]
              (FireModel_init (4, 1) (\<lambda>_. 0) ((\<lambda>_. 2)((1, 0) := 3)) 0 0 30)"
    by (simp add: still_moat_def)
  have m2: "strip = fold (\<lambda>(r, c, t). ignite r c t) [(0, 0, 0)]
              (FireModel_init (4, 1) (\<lambda>_. 0) (\<lambda>_. 2) 10 0 30)"
    by (simp add: strip_def)
  have cs: "0 < (30::real)" by simp
  note w1 = water_barrier[OF m1 cs uniform_ok_examples(2), of 1000]
  note w2 = water_barrier[OF m2 cs uniform_ok_examples(1), of 1000]
  have "ignition_time (final_state (run_simulation still_moat 1000 g_calm)) (1, 0) = None"
    using w1 by simp
  moreover have "ignition_time (final_state (run_simulation still_moat 1000 g_calm)) (3, 0) = None"
    using w1 moat_not_connected(2) by simp
  moreover have "\<exists>T0. \<forall>T\<ge>T0. \<exists>s. run_simulation strip T g_spot = Inr s \<and> ignition_time s (3, 0) \<noteq> None"
  proof -
    from w2 obtain T0 where "\<forall>T\<ge>T0. \<exists>s. run_simulation strip T g_spot = Inr s
               \<and> (\<forall>n. connected strip n \<longrightarrow> ignition_time s n \<noteq> None)" by auto
    then show ?thesis using strip_connected by blast
  qed
  ultimately show ?thesis using moat_not_connected(2) strip_connected by (simp add: still_moat_sel)
qed

lemma start_moat:
  "start_state moat g =
     \<lparr>ignition_time = (\<lambda>_. None)((0, 0) := Some 0), pq = [(0, 0, 0)], visited = {}, rng = g\<rparr>"
  by (simp add: moat_sel start_state_def start_cells_def cells_def heappush_def upto.simps)

lemma moat_run:
  "\<exists>s. run_simulation moat 1000 g_spot = Inr s \<and> ignition_time s (3, 0) = Some 10"
  by (simp add: run_simulation_def start_moat g_spot_def moat_sel run_loop.simps[of moat] body_eval)

text \<open>
  The claim C8 as stated fails: an ember crosses a barrier. On the strip with a Water
  cell below the seed and a wind of 10 m/s, no Water-free path joins the seed to the last
  cell, and yet the run gives it the time 10, at which the ember of the seed lands there.
\<close>

theorem ember_crosses_water_counterexample:
  "fuel moat (1, 0) = 3 \<and> \<not> connected moat (3, 0)
   \<and> raised (run_simulation moat 1000 g_spot) = None
   \<and> ignition_time (final_state (run_simulation moat 1000 g_spot)) (3, 0) = Some 10"
  using moat_run moat_not_connected(1)
  by (auto simp: moat_sel raised_def final_state_def)

subsection \<open>Runs that return\<close>

text \<open>Outside the wind speeds between 5 and 6, a run on an object whose finite ignition
  times all lie in the grid returns: the loop raises neither \<^verbatim>\<open>IndexError\<close> nor
  \<^verbatim>\<open>ValueError\<close>.\<close>

lemma run_returns:
  assumes seeds: "\<And>n. FireModel.ignition_time m n \<noteq> None \<Longrightarrow> n \<in> set (cells m)"
    and wind: "wind_speed m \<le> 5 \<or> 6 \<le> wind_speed m"
  shows "\<exists>s. run_simulation m max_time g = Inr s"
  unfolding run_simulation_def
proof (rule run_loop_result_invariant[where I = "confined m UNIV"])
  show "confined m UNIV (start_state m g)" using seeds by (intro confined_start) auto
next
  fix s1 s2 assume "confined m UNIV s1" "pq s1 \<noteq> []" "iteration m max_time s1 = Continue s2"
  then show "confined m UNIV s2"
    using confined_step[of m UNIV s1 max_time] by (simp add: outcome_state_def)
next
  fix s1 s2 e assume J: "confined m UNIV s1" and ne: "pq s1 \<noteq> []"
    and it: "iteration m max_time s1 = Raise e s2"
  obtain t r c pq' where hp: "heappop (pq s1) = ((t, r, c), pq')"
    by (cases "heappop (pq s1)") auto
  note hs = heappop_set[OF ne hp]
  have inb: "0 \<le> r \<and> r < rows m \<and> 0 \<le> c \<and> c < cols m"
    using confinedD(2)[OF J hs(1)] by (simp add: set_cells)
  from hp inb have False
  proof (cases rule: iteration_cases_in_grid[where max_time = max_time and m = m])
    case visit
    then show ?thesis
      using it ember_spotting_returns[OF wind, of t r c "(r, c)" "settle m t r c (r, c) (s1\<lparr>pq := pq'\<rparr>)"]
      by auto
  qed (use it in auto)
  then show "\<exists>s. Inl (e, s2) = Inr s" ..
qed simp_all

text \<open>Without a seed the run returns at once, with the field it started from.\<close>

lemma run_without_seeds:
  assumes "FireModel.ignition_time m = (\<lambda>_. None)"
  shows "run_simulation m max_time g =
           Inr \<lparr>ignition_time = (\<lambda>_. None), pq = [], visited = {}, rng = g\<rparr>"
  using assms by (simp add: run_simulation_def start_state_def start_cells_def run_loop.simps)

text \<open>On a grid of Water no call of \<open>ignite\<close> creates a seed.\<close>

lemma all_water_no_seeds:
  assumes "\<And>n. fuel_map n = 3"
  shows "FireModel.ignition_time (fold (\<lambda>(r, c, t). ignite r c t) ignitions
           (FireModel_init shape elevation_map fuel_map speed dir csize)) = (\<lambda>_. None)"
proof
  fix n
  let ?m0 = "FireModel_init shape elevation_map fuel_map speed dir csize"
  show "FireModel.ignition_time (fold (\<lambda>(r, c, t). ignite r c t) ignitions ?m0) n = None"
  proof (rule ccontr)
    assume "FireModel.ignition_time (fold (\<lambda>(r, c, t). ignite r c t) ignitions ?m0) n \<noteq> None"
    then have "n \<in> set (cells ?m0) \<and> fuel ?m0 n \<noteq> 3"
      by (rule ignites_seeds[rotated]) (simp add: FireModel_init_def)
    then show False using assms by (simp add: FireModel_init_def)
  qed
qed

subsection \<open>What a run draws from the generator\<close>

lemma advance_zero: "advance 0 0 g = g"
  by (simp add: advance_def)

lemma advance_one: "advance (Suc 0) 0 g = g\<lparr>uniforms := stl (uniforms g)\<rparr>"
  by (simp add: advance_def)

lemma advance_three:
  "advance 3 (Suc 0) g = g\<lparr>uniforms := stl (stl (stl (uniforms g))), normals := stl (normals g)\<rparr>"
  by (simp add: advance_def eval_nat_numeral)

lemma advance_advance: "advance k' j' (advance k j g) = advance (k + k') (j + j') g"
  by (simp add: advance_def sdrop_add)

lemma same_variates_zero: "same_variates 0 0 g g'"
  by (simp add: same_variates_def)

lemma same_variates_one:
  "same_variates (Suc 0) 0 g g' \<longleftrightarrow> shd (uniforms g') = shd (uniforms g)"
  by (simp add: same_variates_def)

lemma same_variates_three:
  "same_variates 3 (Suc 0) g g' \<longleftrightarrow>
     shd (uniforms g') = shd (uniforms g)
     \<and> shd (stl (uniforms g')) = shd (stl (uniforms g))
     \<and> shd (stl (stl (uniforms g'))) = shd (stl (stl (uniforms g)))
     \<and> shd (normals g') = shd (normals g)"
  by (simp add: same_variates_def eval_nat_numeral)

lemma same_variates_add:
  "same_variates (k + k') (j + j') g g' \<longleftrightarrow>
     same_variates k j g g' \<and> same_variates k' j' (advance k j g) (advance k j g')"
proof -
  have "stake (k + k') x = stake (k + k') y \<longleftrightarrow>
        stake k x = stake k y \<and> stake k' (sdrop k x) = stake k' (sdrop k y)"
    for k k' and x y :: "real stream"
    by (simp add: stake_add[symmetric] del: stake_add)
  then show ?thesis by (auto simp: same_variates_def advance_def)
qed

lemma spot_event_reads:
  assumes "shd (uniforms g') = shd (uniforms g)"
    "shd (stl (uniforms g')) = shd (stl (uniforms g))"
    "shd (normals g') = shd (normals g)"
  shows "spot_event m t r c g' =
           (case spot_event m t r c g of
              Inl e \<Rightarrow> Inl e
            | Inr (ev, g4) \<Rightarrow>
                Inr (ev, g'\<lparr>uniforms := stl (stl (uniforms g')), normals := stl (normals g')\<rparr>))"
    and "spot_event m t r c g = Inr (ev, g4) \<Longrightarrow>
           g4 = g\<lparr>uniforms := stl (stl (uniforms g)), normals := stl (normals g)\<rparr>"
    and "(\<exists>e. spot_event m t r c g = Inl e) \<longleftrightarrow> 2 \<ge> py_int (wind_speed m * 0.5)"
  using assms
  by (auto simp: spot_event_def spot_dist_px_def np_random_randint_def np_random_normal_def
      np_random_random_def Let_def split: if_splits)


lemma ember_spotting_active:
  assumes "fuel m n = 2 \<and> wind_speed m > 5.0"
  shows "ember_spotting m t r c n s =
     (if shd (uniforms (rng s)) < 0.02 then
        (case spot_event m t r c ((rng s)\<lparr>uniforms := stl (uniforms (rng s))\<rparr>) of
           Inl e \<Rightarrow> Inl (e, s\<lparr>rng := (rng s)\<lparr>uniforms := stl (uniforms (rng s))\<rparr>\<rparr>)
         | Inr ((spot_time, sp_r, sp_c), g4) \<Rightarrow>
             if 0 \<le> sp_r \<and> sp_r < rows m \<and> 0 \<le> sp_c \<and> sp_c < cols m
                \<and> fuel m (sp_r, sp_c) \<in> {1, 2}
                \<and> time_lt spot_time (ignition_time s (sp_r, sp_c))
             then Inr (s\<lparr>ignition_time := (ignition_time s)((sp_r, sp_c) := Some spot_time),
                         pq := heappush (pq s) (spot_time, sp_r, sp_c),
                         rng := g4\<rparr>)
             else Inr (s\<lparr>rng := g4\<rparr>))
      else Inr (s\<lparr>rng := (rng s)\<lparr>uniforms := stl (uniforms (rng s))\<rparr>\<rparr>))"
  unfolding ember_spotting_def np_random_random_def using assms by simp

lemma ember_spotting_reads:
  assumes "same_variates (fst (ember_draws m n (rng s))) (snd (ember_draws m n (rng s))) (rng s) g'"
  shows "ember_spotting m t r c n (s\<lparr>rng := g'\<rparr>)
           = result_with_rng (advance (fst (ember_draws m n (rng s))) (snd (ember_draws m n (rng s))) g')
               (ember_spotting m t r c n s)
         \<and> rng (final_state (ember_spotting m t r c n s))
           = advance (fst (ember_draws m n (rng s))) (snd (ember_draws m n (rng s))) (rng s)"
proof (cases "fuel m n = 2 \<and> wind_speed m > 5.0")
  case False
  then have d: "ember_draws m n (rng s) = (0, 0)" by (simp add: ember_draws_def)
  show ?thesis
    by (simp add: d ember_spotting_idle[OF False] advance_zero result_with_rng_def final_state_def)
next
  case act: True
  let ?u = "shd (uniforms (rng s))"
  let ?g1 = "(rng s)\<lparr>uniforms := stl (uniforms (rng s))\<rparr>"
  let ?g1' = "g'\<lparr>uniforms := stl (uniforms g')\<rparr>"
  show ?thesis
  proof (cases "?u < 0.02")
    case False
    then have d: "ember_draws m n (rng s) = (Suc 0, 0)" using act by (simp add: ember_draws_def)
    have u': "shd (uniforms g') = ?u" using assms by (simp add: d same_variates_one)
    show ?thesis
      using False
      by (simp add: d ember_spotting_active[OF act] u' advance_one result_with_rng_def final_state_def)
  next
    case low: True
    show ?thesis
    proof (cases "2 \<ge> py_int (wind_speed m * 0.5)")
      case True
      then have d: "ember_draws m n (rng s) = (Suc 0, 0)" using act low by (simp add: ember_draws_def)
      have u': "shd (uniforms g') = ?u" using assms by (simp add: d same_variates_one)
      have 1: "spot_event m t r c g = Inl ValueError" for g
        using True by (simp add: spot_event_def spot_dist_px_def np_random_randint_def)
      show ?thesis
        using low
        by (simp add: d ember_spotting_active[OF act] u' 1 advance_one result_with_rng_def final_state_def)
    next
      case False
      then have d: "ember_draws m n (rng s) = (3, Suc 0)" using act low by (simp add: ember_draws_def)
      from assms have v: "shd (uniforms g') = ?u"
        "shd (stl (uniforms g')) = shd (stl (uniforms (rng s)))"
        "shd (stl (stl (uniforms g'))) = shd (stl (stl (uniforms (rng s))))"
        "shd (normals g') = shd (normals (rng s))"
        by (simp_all add: d same_variates_three)
      have a: "shd (uniforms ?g1') = shd (uniforms ?g1)"
        "shd (stl (uniforms ?g1')) = shd (stl (uniforms ?g1))"
        "shd (normals ?g1') = shd (normals ?g1)"
        using v by simp_all
      have "\<not> (\<exists>e. spot_event m t r c ?g1 = Inl e)"
        using spot_event_reads(3)[OF a, of m t r c] False by simp
      then obtain st sr sc g4 where se: "spot_event m t r c ?g1 = Inr ((st, sr, sc), g4)"
        by (cases "spot_event m t r c ?g1") auto
      have g4: "g4 = advance 3 (Suc 0) (rng s)"
        using spot_event_reads(2)[OF a se] by (simp add: advance_three)
      have se': "spot_event m t r c ?g1' = Inr ((st, sr, sc), advance 3 (Suc 0) g')"
        using spot_event_reads(1)[OF a, of m t r c] by (simp add: se advance_three)
      show ?thesis
        using low
        by (auto simp: d ember_spotting_active[OF act] v(1) se se' g4 result_with_rng_def final_state_def)
    qed
  qed
qed

lemma iteration_reads:
  assumes "same_variates (fst (iteration_draws m max_time s)) (snd (iteration_draws m max_time s))
             (rng s) g'"
  shows "iteration m max_time (s\<lparr>rng := g'\<rparr>)
           = outcome_with_rng
               (advance (fst (iteration_draws m max_time s)) (snd (iteration_draws m max_time s)) g')
               (iteration m max_time s)
         \<and> rng (outcome_state (iteration m max_time s))
           = advance (fst (iteration_draws m max_time s)) (snd (iteration_draws m max_time s)) (rng s)"
proof -
  obtain t r c pq' where hp: "heappop (pq s) = ((t, r, c), pq')"
    by (cases "heappop (pq s)") auto
  from hp show ?thesis
  proof (cases rule: iteration_cases[where m = m and max_time = max_time])
    case break
    have d: "iteration_draws m max_time s = (0, 0)"
      using break(1) by (simp add: iteration_draws_def hp)
    have "iteration m max_time (s\<lparr>rng := g'\<rparr>) = Break (s\<lparr>rng := g', pq := pq'\<rparr>)"
      using break(1) by (simp add: iteration_def hp)
    then show ?thesis
      by (simp add: d break(2) outcome_with_rng_def outcome_state_def advance_zero)
  next
    case index
    have d: "iteration_draws m max_time s = (0, 0)"
      using index(1,2) by (auto simp: iteration_draws_def hp split: option.splits)
    have "iteration m max_time (s\<lparr>rng := g'\<rparr>) = Raise IndexError (s\<lparr>rng := g', pq := pq'\<rparr>)"
      using index(1,2) by (auto simp: iteration_def hp Let_def split: option.splits)
    then show ?thesis
      by (simp add: d index(3) outcome_with_rng_def outcome_state_def advance_zero)
  next
    case (stale r' c')
    have d: "iteration_draws m max_time s = (0, 0)"
      using stale(1-4) by (simp add: iteration_draws_def hp)
    have "iteration m max_time (s\<lparr>rng := g'\<rparr>) = Continue (s\<lparr>rng := g', pq := pq'\<rparr>)"
      using stale(1-4) by (simp add: iteration_def hp)
    then show ?thesis
      by (simp add: d stale(5) outcome_with_rng_def outcome_state_def advance_zero)
  next
    case (visit r' c')
    let ?s3 = "settle m t r c (r', c') (s\<lparr>pq := pq'\<rparr>)"
    have d: "iteration_draws m max_time s = ember_draws m (r', c') (rng ?s3)"
      using visit(1-4) by (simp add: iteration_draws_def hp settle_rng)
    have r3: "rng ?s3 = rng s" by (simp add: settle_rng)
    have sv: "same_variates (fst (ember_draws m (r', c') (rng ?s3)))
                (snd (ember_draws m (r', c') (rng ?s3))) (rng ?s3) g'"
      using assms unfolding d by (simp add: r3)
    note er = ember_spotting_reads[OF sv, of t r c]
    have "iteration m max_time (s\<lparr>rng := g'\<rparr>)
          = (case ember_spotting m t r c (r', c') (settle m t r c (r', c') (s\<lparr>rng := g', pq := pq'\<rparr>)) of
               Inl (e, s4) \<Rightarrow> Raise e s4 | Inr s4 \<Rightarrow> Continue s4)"
      using visit(1-4) by (simp add: iteration_def hp settle_def)
    also have "s\<lparr>rng := g', pq := pq'\<rparr> = (s\<lparr>pq := pq'\<rparr>)\<lparr>rng := g'\<rparr>" by simp
    finally have it': "iteration m max_time (s\<lparr>rng := g'\<rparr>)
          = (case ember_spotting m t r c (r', c') (?s3\<lparr>rng := g'\<rparr>) of
               Inl (e, s4) \<Rightarrow> Raise e s4 | Inr s4 \<Rightarrow> Continue s4)"
      by (simp only: settle_with_rng)
    show ?thesis
      unfolding it' visit(5) d using er
      by (cases "ember_spotting m t r c (r', c') ?s3")
         (auto simp: r3 result_with_rng_def final_state_def outcome_with_rng_def outcome_state_def)
  qed
qed

lemma uniform_draws_unfold:
  "uniform_draws m max_time s =
     (if pq s = [] then 0
      else fst (iteration_draws m max_time s)
           + (case iteration m max_time s of Continue s' \<Rightarrow> uniform_draws m max_time s'
              | Break s' \<Rightarrow> 0 | Raise e s' \<Rightarrow> 0))"
  by (simp add: uniform_draws_def loop_heads.simps[of m max_time s] split: outcome.splits)

lemma normal_draws_unfold:
  "normal_draws m max_time s =
     (if pq s = [] then 0
      else snd (iteration_draws m max_time s)
           + (case iteration m max_time s of Continue s' \<Rightarrow> normal_draws m max_time s'
              | Break s' \<Rightarrow> 0 | Raise e s' \<Rightarrow> 0))"
  by (simp add: normal_draws_def loop_heads.simps[of m max_time s] split: outcome.splits)

lemma run_loop_reads:
  assumes "same_variates (uniform_draws m max_time s) (normal_draws m max_time s) (rng s) g'"
  shows "run_loop m max_time (s\<lparr>rng := g'\<rparr>)
           = result_with_rng (advance (uniform_draws m max_time s) (normal_draws m max_time s) g')
               (run_loop m max_time s)
         \<and> rng (final_state (run_loop m max_time s))
           = advance (uniform_draws m max_time s) (normal_draws m max_time s) (rng s)"
  using assms
proof (induction m max_time s arbitrary: g' rule: run_loop.induct)
  case (1 m max_time s)
  show ?case
  proof (cases "pq s = []")
    case True
    then show ?thesis
      by (simp add: run_loop.simps[of m max_time s] run_loop.simps[of m max_time "s\<lparr>rng := g'\<rparr>"]
          uniform_draws_unfold[of m max_time s] normal_draws_unfold[of m max_time s]
          result_with_rng_def final_state_def advance_zero)
  next
    case False
    let ?k = "fst (iteration_draws m max_time s)"
    let ?j = "snd (iteration_draws m max_time s)"
    show ?thesis
    proof (cases "iteration m max_time s")
      case (Continue s')
      have ud: "uniform_draws m max_time s = ?k + uniform_draws m max_time s'"
        using False Continue by (simp add: uniform_draws_unfold[of m max_time s])
      have nd: "normal_draws m max_time s = ?j + normal_draws m max_time s'"
        using False Continue by (simp add: normal_draws_unfold[of m max_time s])
      from "1.prems" have sv1: "same_variates ?k ?j (rng s) g'"
        and sv2: "same_variates (uniform_draws m max_time s') (normal_draws m max_time s')
                    (advance ?k ?j (rng s)) (advance ?k ?j g')"
        unfolding ud nd same_variates_add by simp_all
      note it = iteration_reads[OF sv1]
      have rs': "rng s' = advance ?k ?j (rng s)"
        using it Continue by (simp add: outcome_state_def)
      have it': "iteration m max_time (s\<lparr>rng := g'\<rparr>) = Continue (s'\<lparr>rng := advance ?k ?j g'\<rparr>)"
        using it Continue by (simp add: outcome_with_rng_def)
      from sv2 have "same_variates (uniform_draws m max_time s') (normal_draws m max_time s')
                    (rng s') (advance ?k ?j g')"
        by (simp add: rs')
      note ih = "1.IH"[OF False Continue this]
      have r: "run_loop m max_time s = run_loop m max_time s'"
        using False Continue by (simp add: run_loop.simps[of m max_time s])
      have r': "run_loop m max_time (s\<lparr>rng := g'\<rparr>)
                = run_loop m max_time (s'\<lparr>rng := advance ?k ?j g'\<rparr>)"
        using False it' by (simp add: run_loop.simps[of m max_time "s\<lparr>rng := g'\<rparr>"])
      show ?thesis
        unfolding r r' ud nd using ih by (simp add: advance_advance rs')
    next
      case (Break s')
      have ud: "uniform_draws m max_time s = ?k"
        using False Break by (simp add: uniform_draws_unfold[of m max_time s])
      have nd: "normal_draws m max_time s = ?j"
        using False Break by (simp add: normal_draws_unfold[of m max_time s])
      from "1.prems" have sv1: "same_variates ?k ?j (rng s) g'" unfolding ud nd .
      note it = iteration_reads[OF sv1]
      show ?thesis
        using it False Break
        by (simp add: ud nd run_loop.simps[of m max_time s]
            run_loop.simps[of m max_time "s\<lparr>rng := g'\<rparr>"]
            outcome_with_rng_def outcome_state_def result_with_rng_def final_state_def)
    next
      case (Raise e s')
      have ud: "uniform_draws m max_time s = ?k"
        using False Raise by (simp add: uniform_draws_unfold[of m max_time s])
      have nd: "normal_draws m max_time s = ?j"
        using False Raise by (simp add: normal_draws_unfold[of m max_time s])
      from "1.prems" have sv1: "same_variates ?k ?j (rng s) g'" unfolding ud nd .
      note it = iteration_reads[OF sv1]
      show ?thesis
        using it False Raise
        by (simp add: ud nd run_loop.simps[of m max_time s]
            run_loop.simps[of m max_time "s\<lparr>rng := g'\<rparr>"]
            outcome_with_rng_def outcome_state_def result_with_rng_def final_state_def)
    qed
  qed
qed

lemma ember_draws_forest:
  "wind_speed m > 5 \<Longrightarrow> fuel m n = 2 \<Longrightarrow> 1 \<le> fst (ember_draws m n g)"
  by (simp add: ember_draws_def)

lemma iteration_forest_draws:
  assumes "wind_speed m > 5" "finite (visited s)"
  shows "finite (visited (outcome_state (iteration m max_time s)))
         \<and> card {n \<in> visited (outcome_state (iteration m max_time s)). fuel m n = 2}
             \<le> card {n \<in> visited s. fuel m n = 2} + fst (iteration_draws m max_time s)"
proof -
  obtain t r c pq' where hp: "heappop (pq s) = ((t, r, c), pq')"
    by (cases "heappop (pq s)") auto
  from hp show ?thesis
  proof (cases rule: iteration_cases[where m = m and max_time = max_time])
    case (visit r' c')
    let ?s3 = "settle m t r c (r', c') (s\<lparr>pq := pq'\<rparr>)"
    have d: "iteration_draws m max_time s = ember_draws m (r', c') (rng s)"
      using visit(1-4) by (simp add: iteration_draws_def hp)
    have "visited (case ember_spotting m t r c (r', c') ?s3 of
             Inl (e, s') \<Rightarrow> s' | Inr s' \<Rightarrow> s') = insert (r', c') (visited s)"
      by (simp add: ember_visited settle_visited)
    then have v: "visited (outcome_state (iteration m max_time s)) = insert (r', c') (visited s)"
      unfolding visit(5) by (auto simp: outcome_state_def split: sum.splits)
    show ?thesis
    proof (cases "fuel m (r', c') = 2")
      case True
      have "{n \<in> insert (r', c') (visited s). fuel m n = 2}
            = insert (r', c') {n \<in> visited s. fuel m n = 2}"
        using True by auto
      moreover have "finite {n \<in> visited s. fuel m n = 2}" using assms(2) by simp
      ultimately have "card {n \<in> insert (r', c') (visited s). fuel m n = 2}
            \<le> card {n \<in> visited s. fuel m n = 2} + 1"
        by (simp add: card_insert_if)
      then show ?thesis
        using ember_draws_forest[OF assms(1) True, of "rng s"] assms(2) unfolding v d by simp
    next
      case False
      have "{n \<in> insert (r', c') (visited s). fuel m n = 2} = {n \<in> visited s. fuel m n = 2}"
        using False by auto
      then show ?thesis using assms(2) unfolding v d by simp
    qed
  qed (simp_all add: outcome_state_def assms(2))
qed

lemma run_loop_forest_draws:
  assumes "wind_speed m > 5" "finite (visited s)"
  shows "card {n \<in> visited (final_state (run_loop m max_time s)). fuel m n = 2}
           \<le> card {n \<in> visited s. fuel m n = 2} + uniform_draws m max_time s"
  using assms
proof (induction m max_time s rule: run_loop.induct)
  case (1 m max_time s)
  show ?case
  proof (cases "pq s = []")
    case True
    then show ?thesis
      by (simp add: run_loop.simps[of m max_time s] final_state_def)
  next
    case False
    note it = iteration_forest_draws[OF "1.prems", of max_time]
    show ?thesis
    proof (cases "iteration m max_time s")
      case (Continue s')
      have ud: "uniform_draws m max_time s
                = fst (iteration_draws m max_time s) + uniform_draws m max_time s'"
        using False Continue by (simp add: uniform_draws_unfold[of m max_time s])
      have r: "run_loop m max_time s = run_loop m max_time s'"
        using False Continue by (simp add: run_loop.simps[of m max_time s])
      have fin: "finite (visited s')" using it Continue by (simp add: outcome_state_def)
      have c1: "card {n \<in> visited s'. fuel m n = 2}
             \<le> card {n \<in> visited s. fuel m n = 2} + fst (iteration_draws m max_time s)"
        using it Continue by (simp add: outcome_state_def)
      from "1.IH"[OF False Continue "1.prems"(1) fin] c1 show ?thesis
        unfolding r ud by linarith
    next
      case (Break s')
      have ud: "uniform_draws m max_time s = fst (iteration_draws m max_time s)"
        using False Break by (simp add: uniform_draws_unfold[of m max_time s])
      show ?thesis
        using it False Break
        by (simp add: ud run_loop.simps[of m max_time s] outcome_state_def final_state_def)
    next
      case (Raise e s')
      have ud: "uniform_draws m max_time s = fst (iteration_draws m max_time s)"
        using False Raise by (simp add: uniform_draws_unfold[of m max_time s])
      show ?thesis
        using it False Raise
        by (simp add: ud run_loop.simps[of m max_time s] outcome_state_def final_state_def)
    qed
  qed
qed

lemma result_with_rng_field:
  "ignition_time (final_state (result_with_rng g res)) = ignition_time (final_state res)"
  "visited (final_state (result_with_rng g res)) = visited (final_state res)"
  "raised (result_with_rng g res) = raised res"
  "rng (final_state (result_with_rng g res)) = g"
  by (auto simp: result_with_rng_def final_state_def raised_def split: sum.splits)

lemma strip_draws_spot:
  "uniform_draws strip 1000 (start_state strip g_spot) = 6"
  "normal_draws strip 1000 (start_state strip g_spot) = 1"
  by (simp_all add: start_strip g_spot_def strip_sel uniform_draws_unfold[of strip]
      normal_draws_unfold[of strip] iteration_draws_def ember_draws_def body_eval)

lemma same_variates_spot_then: "same_variates 6 1 g_spot g_spot_then"
  by (simp add: same_variates_def g_spot_def g_spot_then_def eval_nat_numeral)

lemma g_spot_then_differs: "uniforms g_spot_then !! 6 = 3 / 4" "uniforms g_spot !! 6 = 1 / 2"
  by (simp_all add: g_spot_def g_spot_then_def eval_nat_numeral)

text \<open>
  C1, as the code has it. The randomness of the spotting block comes from the global
  generator of numpy, which is no part of the object and no argument of its constructor:
  \<open>run_simulation\<close> reads whatever state \<open>g\<close> that generator is in and leaves it advanced
  by the variates it has drawn, at least one uniform variate for every Forest cell it
  has settled when the wind speed is above 5. The run depends on the generator through
  these variates only: the same object, run with the same \<open>max_time\<close> from a state \<open>g'\<close>
  that hands out the same variates for as many draws as the run from \<open>g\<close> makes (as after
  seeding the generator identically), gives the same ignition time field, settles the
  same cells, raises or returns alike and advances the generator by the same number of
  draws.
\<close>

theorem run_draws_from_global_generator:
  assumes "same_variates (uniform_draws m max_time (start_state m g))
             (normal_draws m max_time (start_state m g)) g g'"
  shows "rng (final_state (run_simulation m max_time g))
           = advance (uniform_draws m max_time (start_state m g))
               (normal_draws m max_time (start_state m g)) g
         \<and> rng (final_state (run_simulation m max_time g'))
           = advance (uniform_draws m max_time (start_state m g))
               (normal_draws m max_time (start_state m g)) g'
         \<and> ignition_time (final_state (run_simulation m max_time g'))
           = ignition_time (final_state (run_simulation m max_time g))
         \<and> visited (final_state (run_simulation m max_time g'))
           = visited (final_state (run_simulation m max_time g))
         \<and> raised (run_simulation m max_time g') = raised (run_simulation m max_time g)
         \<and> (wind_speed m > 5 \<longrightarrow>
              card {n \<in> visited (final_state (run_simulation m max_time g)). fuel m n = 2}
                \<le> uniform_draws m max_time (start_state m g))"
proof -
  let ?s = "start_state m g"
  have rs: "rng ?s = g" by (simp add: start_state_def)
  have v0: "visited ?s = {}" by (simp add: start_state_def)
  from assms have "same_variates (uniform_draws m max_time ?s) (normal_draws m max_time ?s) (rng ?s) g'"
    by (simp only: rs)
  from run_loop_reads[OF this]
  have 1: "run_simulation m max_time g'
           = result_with_rng (advance (uniform_draws m max_time ?s) (normal_draws m max_time ?s) g')
               (run_simulation m max_time g)"
    and 2: "rng (final_state (run_simulation m max_time g))
           = advance (uniform_draws m max_time ?s) (normal_draws m max_time ?s) g"
    unfolding run_simulation_def start_state_with_rng[of m g' g] rs by simp_all
  have 3: "card {n \<in> visited (final_state (run_simulation m max_time g)). fuel m n = 2}
             \<le> uniform_draws m max_time ?s" if "wind_speed m > 5"
    using run_loop_forest_draws[OF that, of ?s max_time] by (simp add: v0 run_simulation_def)
  show ?thesis
    unfolding 1 result_with_rng_field using 2 3 by simp
qed

theorem run_draws_from_global_generator_witness:
  "same_variates (uniform_draws strip 1000 (start_state strip g_spot))
      (normal_draws strip 1000 (start_state strip g_spot)) g_spot g_spot_then
   \<and> uniform_draws strip 1000 (start_state strip g_spot) = 6
   \<and> normal_draws strip 1000 (start_state strip g_spot) = 1
   \<and> uniforms g_spot_then !! 6 = 3 / 4 \<and> uniforms g_spot !! 6 = 1 / 2
   \<and> rng (final_state (run_simulation strip 1000 g_spot)) = advance 6 1 g_spot
   \<and> rng (final_state (run_simulation strip 1000 g_spot_then)) = advance 6 1 g_spot_then
   \<and> ignition_time (final_state (run_simulation strip 1000 g_spot_then)) (3, 0) = Some 10
   \<and> raised (run_simulation strip 1000 g_spot_then) = raised (run_simulation strip 1000 g_spot)
   \<and> card {n \<in> visited (final_state (run_simulation strip 1000 g_spot)). fuel strip n = 2} \<le> 6"
proof -
  have sv: "same_variates (uniform_draws strip 1000 (start_state strip g_spot))
      (normal_draws strip 1000 (start_state strip g_spot)) g_spot g_spot_then"
    unfolding strip_draws_spot by (rule same_variates_spot_then)
  have w: "wind_speed strip > 5" by (simp add: strip_sel)
  from run_draws_from_global_generator[OF sv] w sv show ?thesis
    unfolding strip_draws_spot
    by (simp add: strip_run_spot g_spot_then_differs)
qed

end
